theory Spec2Isabelle
  imports Complex_Main "HOL-Library.Word" "HOL-Library.Log_Nat"
begin

unbundle bit_operations_syntax

section \<open>Arena allocator (arena.hpp)\<close>

text \<open>
  \<^verbatim>\<open>Arena<T, NBlock>\<close> keeps a \<^verbatim>\<open>std::forward_list<std::vector<T>>\<close>. A vector is modelled by
  its elements, its capacity and the identity of the heap buffer that holds the elements: a
  reallocation (the only event that relocates elements of a vector) gives the vector a new
  buffer identity, so references into the old buffer dangle from then on.
\<close>

record 'a vector =
  elems :: "'a list"
  capacity :: nat
  buffer :: nat

definition empty_vector :: "'a vector" where
  "empty_vector = \<lparr>elems = [], capacity = 0, buffer = 0\<rparr>"

text \<open>\<^verbatim>\<open>reserve(n)\<close> reallocates exactly when \<open>n\<close> exceeds the capacity.\<close>

definition reserve :: "nat \<Rightarrow> 'a vector \<Rightarrow> 'a vector" where
  "reserve n v =
     (if capacity v < n then v\<lparr>capacity := n, buffer := Suc (buffer v)\<rparr> else v)"

text \<open>
  \<^verbatim>\<open>emplace_back\<close> appends in place while the size is below the capacity, and otherwise moves
  the elements to a larger buffer first.
\<close>

definition emplace_back :: "'a \<Rightarrow> 'a vector \<Rightarrow> 'a vector" where
  "emplace_back x v =
     (if length (elems v) < capacity v then v\<lparr>elems := elems v @ [x]\<rparr>
      else v\<lparr>elems := elems v @ [x], capacity := max 1 (2 * capacity v),
             buffer := Suc (buffer v)\<rparr>)"

text \<open>
  The block list: the head of the list is \<^verbatim>\<open>blocks.front()\<close>, the newest block. A list node of
  a \<^verbatim>\<open>forward_list\<close> never moves, so a block is identified by its position counted from the
  oldest block.
\<close>

type_synonym 'a Arena = "'a vector list"

text \<open>The default template argument, the one every arena of the repository uses.\<close>

definition NBlock :: nat where
  "NBlock = 4096"

text \<open>
  A reference \<^verbatim>\<open>T *\<close> into the arena: the block, the buffer of that block it points into, and
  the offset of the element.
\<close>

datatype ptr = Ptr (blk: nat) (buf: nat) (idx: nat)

definition deref :: "'a Arena \<Rightarrow> ptr \<Rightarrow> 'a option" where
  "deref blocks p =
     (if blk p < length blocks then
        (let v = rev blocks ! blk p
         in if buffer v = buf p \<and> idx p < length (elems v) then Some (elems v ! idx p)
            else None)
      else None)"

text \<open>
  \<^verbatim>\<open>
  template <typename... Args> T *alloc(Args... args)
  {
      if (blocks.empty() || blocks.front().size() == NBlock) {
          blocks.emplace_front();
          blocks.front().reserve(NBlock);
      }
      blocks.front().emplace_back(std::forward<Args...>(args...));
      return &blocks.front().back();
  }
  \<close>
\<close>

definition alloc :: "'a Arena \<Rightarrow> 'a \<Rightarrow> ptr \<times> 'a Arena" where
  "alloc blocks x =
     (let blocks1 = (if blocks = [] \<or> length (elems (hd blocks)) = NBlock
                     then reserve NBlock empty_vector # blocks else blocks);
          front = emplace_back x (hd blocks1);
          blocks2 = front # tl blocks1
      in (Ptr (length blocks2 - 1) (buffer front) (length (elems front) - 1), blocks2))"

definition clear :: "'a Arena \<Rightarrow> 'a Arena" where
  "clear blocks = []"

text \<open>A sequence of \<^verbatim>\<open>alloc\<close> calls, the returned references dropped.\<close>

fun allocs :: "'a Arena \<Rightarrow> 'a list \<Rightarrow> 'a Arena" where
  "allocs blocks [] = blocks"
| "allocs blocks (x # xs) = allocs (snd (alloc blocks x)) xs"

text \<open>A write through a reference; a dangling reference writes nothing.\<close>

definition store :: "'a Arena \<Rightarrow> ptr \<Rightarrow> 'a \<Rightarrow> 'a Arena" where
  "store blocks p x =
     (case deref blocks p of
        None \<Rightarrow> blocks
      | Some _ \<Rightarrow>
          (let k = length blocks - 1 - blk p; v = blocks ! k
           in blocks[k := v\<lparr>elems := (elems v)[idx p := x]\<rparr>]))"

text \<open>
  Every block of an arena built by \<^verbatim>\<open>alloc\<close> holds at most \<open>NBlock\<close> elements in a buffer
  reserved for \<open>NBlock\<close>.
\<close>

definition arena_wf :: "'a Arena \<Rightarrow> bool" where
  "arena_wf blocks = (\<forall>v \<in> set blocks. length (elems v) \<le> NBlock \<and> NBlock \<le> capacity v)"

section \<open>Game interface (mcts.hpp)\<close>

text \<open>
  \<^verbatim>\<open>using WinState = int\<close> with the four constants \<^verbatim>\<open>WIN = 1\<close>, \<^verbatim>\<open>TIE = 0\<close>, \<^verbatim>\<open>LOSS = -1\<close> and
  \<^verbatim>\<open>NONE = -2\<close>.
\<close>

type_synonym WinState = int

abbreviation (input) WIN :: WinState where "WIN \<equiv> 1"
abbreviation (input) TIE :: WinState where "TIE \<equiv> 0"
abbreviation (input) LOSS :: WinState where "LOSS \<equiv> - 1"
abbreviation (input) NONE :: WinState where "NONE \<equiv> - 2"

text \<open>
  The \<^verbatim>\<open>Game\<close> template parameter: the operations the header's ``concept'' comment lists, and
  the default constructor \<^verbatim>\<open>Game()\<close> that the driver calls (\<open>new_game\<close>). Move indices and
  players are \<^verbatim>\<open>uint\<close>; they are natural numbers here.
\<close>

record 'g Game =
  n_moves :: nat
  new_game :: 'g
  player_turn :: "'g \<Rightarrow> nat"
  winner :: "'g \<Rightarrow> WinState"
  n_valid_moves :: "'g \<Rightarrow> nat"
  is_valid :: "'g \<Rightarrow> nat \<Rightarrow> bool"
  move :: "'g \<Rightarrow> nat \<Rightarrow> 'g"

text \<open>
  The header's comment on \<^verbatim>\<open>winner\<close>: ``see constants above class. return NONE if game is
  not over.''
\<close>

definition winner_contract :: "'g Game \<Rightarrow> bool" where
  "winner_contract G = (\<forall>s. winner G s \<in> {WIN, TIE, LOSS, NONE})"

section \<open>Single-precision counters\<close>

text \<open>
  \<^verbatim>\<open>tot_tries\<close>, \<^verbatim>\<open>tries[i]\<close> and \<^verbatim>\<open>wins[i]\<close> are \<^verbatim>\<open>float\<close>s that only ever hold integers: they
  start at zero and change by \<^verbatim>\<open>++x\<close>, by \<^verbatim>\<open>x = 1.0f\<close> and by \<^verbatim>\<open>x += delta\<close> with \<open>delta\<close> converted
  from an \<^verbatim>\<open>int\<close>. The model keeps the integer a counter holds. \<open>f32 z\<close> is the IEEE-754
  single-precision value nearest to the integer \<open>z\<close> (24 significant bits, ties to even): the
  result of a conversion or of an addition whose exact result is \<open>z\<close>. Overflow to infinity
  (beyond \<open>2 ^ 127\<close>) is out of reach of sums of \<^verbatim>\<open>int\<close>s and is not modelled.
\<close>

definition f32 :: "int \<Rightarrow> int" where
  "f32 z =
     (let a = \<bar>z\<bar>;
          ulp = 2 ^ (floorlog 2 (nat a) - 24);
          q = a div ulp;
          r = a mod ulp;
          m = (if 2 * r < ulp \<or> (2 * r = ulp \<and> even q) then q else q + 1)
      in sgn z * (m * ulp))"

section \<open>Tree nodes (mcts.hpp)\<close>

text \<open>
  \<^verbatim>\<open>
  Game state;
  float tot_tries = 0.0f;
  std::array<Node *, Game::n_moves()> children = {};
  std::array<float, Game::n_moves()> tries = {};
  std::array<float, Game::n_moves()> wins = {};
  \<close>
  A null \<^verbatim>\<open>Node *\<close> is \<open>None\<close>.
\<close>

record 'g Node =
  state :: 'g
  tot_tries :: int
  children :: "ptr option list"
  tries :: "int list"
  wins :: "int list"

text \<open>The constructor \<^verbatim>\<open>Node(Game &&state)\<close> with the default member initialisers.\<close>

definition new_Node :: "'g Game \<Rightarrow> 'g \<Rightarrow> 'g Node" where
  "new_Node G s =
     \<lparr>state = s, tot_tries = 0, children = replicate (n_moves G) None,
      tries = replicate (n_moves G) 0, wins = replicate (n_moves G) 0\<rparr>"

datatype error = AssertionFailed | NullPointer | DanglingPointer

definition is_leaf :: "'g Game \<Rightarrow> 'g Node \<Rightarrow> bool" where
  "is_leaf G n = (winner G (state n) \<noteq> NONE)"

definition is_move_explored :: "'g Node \<Rightarrow> nat \<Rightarrow> bool" where
  "is_move_explored n mv = (children n ! mv \<noteq> None)"

definition child :: "'g Node \<Rightarrow> nat \<Rightarrow> ptr option" where
  "child n mv = children n ! mv"

text \<open>
  \<^verbatim>\<open>
  uint count = 0;
  for (uint i = 0; i < Game::n_moves(); ++i) {
      count += (tries[i] == 0 && state.is_valid(i));
  }
  return count;
  \<close>
\<close>

definition n_unplayed_moves :: "'g Game \<Rightarrow> 'g Node \<Rightarrow> nat" where
  "n_unplayed_moves G n =
     fold (\<lambda>i count. count + (if tries n ! i = 0 \<and> is_valid G (state n) i then 1 else 0))
       [0..<n_moves G] 0"

text \<open>
  The random source: \<open>'r\<close> is the state of the generator, and the parameter
  \<open>D lo hi rng\<close> stands for \<^verbatim>\<open>std::uniform_int_distribution<uint> dist(lo, hi); dist(rng)\<close>: it
  returns the number drawn and the generator's next state.
\<close>

type_synonym 'r distribution = "nat \<Rightarrow> nat \<Rightarrow> 'r \<Rightarrow> nat \<times> 'r"

text \<open>
  The scan shared by \<^verbatim>\<open>random_move\<close> and \<^verbatim>\<open>random_unplayed_move\<close>, with \<open>q i\<close> the condition
  that is added to the count:
  \<^verbatim>\<open>
  uint count = 0;
  for (uint i = 0; i < Game::n_moves(); ++i) {
      count += q(i);
      if (count == imove) return i;
  }
  assert(false);
  \<close>
\<close>

fun scan_moves :: "(nat \<Rightarrow> bool) \<Rightarrow> nat \<Rightarrow> nat list \<Rightarrow> nat \<Rightarrow> error + nat" where
  "scan_moves q imove [] count = Inl AssertionFailed"
| "scan_moves q imove (i # is) count =
     (let count' = count + (if q i then 1 else 0)
      in if count' = imove then Inr i else scan_moves q imove is count')"

definition random_move :: "'g Game \<Rightarrow> 'r distribution \<Rightarrow> 'g Node \<Rightarrow> 'r \<Rightarrow> error + nat \<times> 'r" where
  "random_move G D n rng =
     (let nv = n_valid_moves G (state n);
          (imove, rng') = D 1 nv rng
      in case scan_moves (\<lambda>i. is_valid G (state n) i) imove [0..<n_moves G] 0 of
           Inl e \<Rightarrow> Inl e
         | Inr i \<Rightarrow> Inr (i, rng'))"

definition random_unplayed_move ::
    "'g Game \<Rightarrow> 'r distribution \<Rightarrow> 'g Node \<Rightarrow> 'r \<Rightarrow> error + nat \<times> 'r" where
  "random_unplayed_move G D n rng =
     (let k = n_unplayed_moves G n
      in if \<not> 0 < k then Inl AssertionFailed
         else
           (let (imove, rng') = D 1 k rng
            in case scan_moves (\<lambda>i. tries n ! i = 0 \<and> is_valid G (state n) i) imove
                      [0..<n_moves G] 0 of
                 Inl e \<Rightarrow> Inl e
               | Inr i \<Rightarrow> Inr (i, rng')))"

text \<open>
  \<^verbatim>\<open>
  void _update(uint move, float delta)
  {
      assert(delta != NONE);
      ++tries[move];
      ++tot_tries;
      wins[move] += delta;
  }
  \<close>
  The callers pass a \<^verbatim>\<open>WinState\<close>, which the call converts to \<^verbatim>\<open>float\<close>.
\<close>

definition Node_update :: "'g Node \<Rightarrow> nat \<Rightarrow> WinState \<Rightarrow> error + 'g Node" where
  "Node_update n mv w =
     (let delta = f32 w
      in if delta = NONE then Inl AssertionFailed
         else Inr (n\<lparr>tries := (tries n)[mv := f32 (tries n ! mv + 1)],
                     tot_tries := f32 (tot_tries n + 1),
                     wins := (wins n)[mv := f32 (wins n ! mv + delta)]\<rparr>))"

text \<open>
  \<^verbatim>\<open>random_rollout\<close>. The recursion follows the game, which need not end, so the function
  takes fuel: \<open>None\<close> is ``no result within this call depth''. A method runs on \<^verbatim>\<open>this\<close>, a
  reference into the arena; fields are read from and written to the arena as it is at that
  point of the body.
  \<^verbatim>\<open>
  WinState winner = state.winner();
  if (winner != NONE) {
      tot_tries = 1.0f;
      return winner;
  }
  uint move = random_unplayed_move(rng);
  auto node = arena.alloc(state.move(move));
  winner = node->random_rollout(rng, arena);
  assert(children[move] == nullptr);
  children[move] = std::move(node);
  _update(move, winner);
  return winner;
  \<close>
\<close>

fun random_rollout ::
    "'g Game \<Rightarrow> 'r distribution \<Rightarrow> nat \<Rightarrow> ptr \<Rightarrow> 'r \<times> 'g Node Arena \<Rightarrow>
       (error + WinState \<times> 'r \<times> 'g Node Arena) option" where
  "random_rollout G D 0 this (rng, arena) = None"
| "random_rollout G D (Suc fuel) this (rng, arena) =
     (case deref arena this of
        None \<Rightarrow> Some (Inl DanglingPointer)
      | Some n \<Rightarrow>
          if winner G (state n) \<noteq> NONE
          then Some (Inr (winner G (state n), rng, store arena this (n\<lparr>tot_tries := 1\<rparr>)))
          else
            (case random_unplayed_move G D n rng of
               Inl e \<Rightarrow> Some (Inl e)
             | Inr (mv, rng1) \<Rightarrow>
                 (let (node, arena1) = alloc arena (new_Node G (move G (state n) mv))
                  in case random_rollout G D fuel node (rng1, arena1) of
                       None \<Rightarrow> None
                     | Some (Inl e) \<Rightarrow> Some (Inl e)
                     | Some (Inr (w, rng2, arena2)) \<Rightarrow>
                         (case deref arena2 this of
                            None \<Rightarrow> Some (Inl DanglingPointer)
                          | Some n2 \<Rightarrow>
                              if children n2 ! mv \<noteq> None then Some (Inl AssertionFailed)
                              else
                                (case Node_update (n2\<lparr>children := (children n2)[mv := Some node]\<rparr>)
                                        mv w of
                                   Inl e \<Rightarrow> Some (Inl e)
                                 | Inr n3 \<Rightarrow> Some (Inr (w, rng2, store arena2 this n3)))))))"

section \<open>UCB move selection (mcts.hpp)\<close>

text \<open>
  The score is computed in \<^verbatim>\<open>float\<close> with \<^verbatim>\<open>sqrtf\<close> and the bit-level \<^verbatim>\<open>fastlog\<close>; that arithmetic
  is a parameter of the model. \<open>'f\<close> is the type of scores, \<open>neg_infinity\<close> is
  \<^verbatim>\<open>-std::numeric_limits<float>::infinity()\<close>, \<open>greater a b\<close> is \<^verbatim>\<open>a > b\<close>, and
  \<open>ucb flip w t tot\<close> is
  \<^verbatim>\<open>flip * w / t + sqrtf(2.0f * fastlog(tot + 1e-4f) / t)\<close>
  for \<open>w = wins[move]\<close>, \<open>t = tries[move]\<close> and \<open>tot = tot_tries\<close>.
\<close>

record 'f scoring =
  neg_infinity :: 'f
  greater :: "'f \<Rightarrow> 'f \<Rightarrow> bool"
  ucb :: "int \<Rightarrow> int \<Rightarrow> int \<Rightarrow> int \<Rightarrow> 'f"

text \<open>\<^verbatim>\<open>children[i]->state.winner()\<close>, on a child that may be null.\<close>

definition child_winner ::
    "'g Game \<Rightarrow> 'g Node Arena \<Rightarrow> 'g Node \<Rightarrow> nat \<Rightarrow> error + WinState" where
  "child_winner G arena n i =
     (case children n ! i of
        None \<Rightarrow> Inl NullPointer
      | Some c \<Rightarrow>
          (case deref arena c of
             None \<Rightarrow> Inl DanglingPointer
           | Some cn \<Rightarrow> Inr (winner G (state cn))))"

text \<open>
  The loop of \<^verbatim>\<open>ucb_move\<close>; \<open>i_max = None\<close> is the sentinel \<^verbatim>\<open>0xFFFFFFFF\<close>.
  \<^verbatim>\<open>
  for (uint i = 0; i < Game::n_moves(); ++i) {
      if (!state.is_valid(i)) continue;
      if (player == 0 && children[i]->state.winner() == WIN) return i;
      if (player == 1 && children[i]->state.winner() == LOSS) return i;
      float ucb_i = ucb(i);
      if (ucb_i > ucb_max) { ucb_max = ucb_i; i_max = i; }
  }
  assert(i_max != 0xFFFFFFFF);
  return i_max;
  \<close>
\<close>

fun ucb_loop ::
    "'g Game \<Rightarrow> 'f scoring \<Rightarrow> 'g Node Arena \<Rightarrow> 'g Node \<Rightarrow> nat \<Rightarrow> int \<Rightarrow> nat list \<Rightarrow>
       'f \<Rightarrow> nat option \<Rightarrow> error + nat" where
  "ucb_loop G S arena n player flip [] ucb_max i_max =
     (case i_max of None \<Rightarrow> Inl AssertionFailed | Some i \<Rightarrow> Inr i)"
| "ucb_loop G S arena n player flip (i # is) ucb_max i_max =
     (if \<not> is_valid G (state n) i then ucb_loop G S arena n player flip is ucb_max i_max
      else
        (case (if player = 0 then map_sum id (\<lambda>w. w = WIN) (child_winner G arena n i)
               else if player = 1 then map_sum id (\<lambda>w. w = LOSS) (child_winner G arena n i)
               else Inr False) of
           Inl e \<Rightarrow> Inl e
         | Inr True \<Rightarrow> Inr i
         | Inr False \<Rightarrow>
             (let ucb_i = ucb S flip (wins n ! i) (tries n ! i) (tot_tries n)
              in if greater S ucb_i ucb_max
                 then ucb_loop G S arena n player flip is ucb_i (Some i)
                 else ucb_loop G S arena n player flip is ucb_max i_max)))"

text \<open>
  \<^verbatim>\<open>
  assert(n_unplayed_moves() == 0);
  uint player = state.player_turn();
  float const flip = (player == 0) ? 1.0f : -1.0f;
  \<close>
\<close>

definition ucb_move :: "'g Game \<Rightarrow> 'f scoring \<Rightarrow> 'g Node Arena \<Rightarrow> 'g Node \<Rightarrow> error + nat" where
  "ucb_move G S arena n =
     (if n_unplayed_moves G n \<noteq> 0 then Inl AssertionFailed
      else
        (let player = player_turn G (state n);
             flip = (if player = 0 then 1 else - 1)
         in ucb_loop G S arena n player flip [0..<n_moves G] (neg_infinity S) None))"

text \<open>
  \<^verbatim>\<open>
  WinState winner = state.winner();
  if (winner != NONE) return winner;
  if (n_unplayed_moves() > 0) return random_rollout(rng, arena);
  uint const move = ucb_move();
  assert(children[move] != nullptr);
  winner = children[move]->ucb_rollout(rng, arena);
  _update(move, winner);
  return winner;
  \<close>
\<close>

fun ucb_rollout ::
    "'g Game \<Rightarrow> 'r distribution \<Rightarrow> 'f scoring \<Rightarrow> nat \<Rightarrow> ptr \<Rightarrow> 'r \<times> 'g Node Arena \<Rightarrow>
       (error + WinState \<times> 'r \<times> 'g Node Arena) option" where
  "ucb_rollout G D S 0 this (rng, arena) = None"
| "ucb_rollout G D S (Suc fuel) this (rng, arena) =
     (case deref arena this of
        None \<Rightarrow> Some (Inl DanglingPointer)
      | Some n \<Rightarrow>
          if winner G (state n) \<noteq> NONE then Some (Inr (winner G (state n), rng, arena))
          else if 0 < n_unplayed_moves G n then random_rollout G D fuel this (rng, arena)
          else
            (case ucb_move G S arena n of
               Inl e \<Rightarrow> Some (Inl e)
             | Inr mv \<Rightarrow>
                 (case children n ! mv of
                    None \<Rightarrow> Some (Inl AssertionFailed)
                  | Some c \<Rightarrow>
                      (case ucb_rollout G D S fuel c (rng, arena) of
                         None \<Rightarrow> None
                       | Some (Inl e) \<Rightarrow> Some (Inl e)
                       | Some (Inr (w, rng1, arena1)) \<Rightarrow>
                           (case deref arena1 this of
                              None \<Rightarrow> Some (Inl DanglingPointer)
                            | Some n1 \<Rightarrow>
                                (case Node_update n1 mv w of
                                   Inl e \<Rightarrow> Some (Inl e)
                                 | Inr n2 \<Rightarrow> Some (Inr (w, rng1, store arena1 this n2))))))))"

section \<open>Self-play driver (mcts.hpp)\<close>

text \<open>
  \<^verbatim>\<open>for (int i = 0; i < n_rollouts; ++i) tree->ucb_rollout(prng, arena);\<close>
\<close>

fun rollouts ::
    "'g Game \<Rightarrow> 'r distribution \<Rightarrow> 'f scoring \<Rightarrow> nat \<Rightarrow> ptr \<Rightarrow> nat \<Rightarrow> 'r \<times> 'g Node Arena \<Rightarrow>
       (error + 'r \<times> 'g Node Arena) option" where
  "rollouts G D S fuel tree 0 (prng, arena) = Some (Inr (prng, arena))"
| "rollouts G D S fuel tree (Suc k) (prng, arena) =
     (case ucb_rollout G D S fuel tree (prng, arena) of
        None \<Rightarrow> None
      | Some (Inl e) \<Rightarrow> Some (Inl e)
      | Some (Inr (w, prng1, arena1)) \<Rightarrow> rollouts G D S fuel tree k (prng1, arena1))"

text \<open>
  The choice of the move in one pass of the driver's loop:
  \<^verbatim>\<open>
  if (player == 0) {
      for (int i = 0; i < n_rollouts; ++i) tree->ucb_rollout(prng, arena);
      move = tree->ucb_move();
  } else if (player == 1) {
      move = tree->random_move(prng);
      assert(tree->is_move_explored(move));
  } else {
      assert(false);
  }
  \<close>
\<close>

definition choose_move ::
    "'g Game \<Rightarrow> 'r distribution \<Rightarrow> 'f scoring \<Rightarrow> nat \<Rightarrow> nat \<Rightarrow> ptr \<Rightarrow> 'g Node \<Rightarrow>
       'r \<times> 'g Node Arena \<Rightarrow> (error + nat \<times> 'r \<times> 'g Node Arena) option" where
  "choose_move G D S n_rollouts fuel tree t = (\<lambda>(prng, arena).
     (let player = player_turn G (state t)
      in if player = 0 then
           (case rollouts G D S fuel tree n_rollouts (prng, arena) of
              None \<Rightarrow> None
            | Some (Inl e) \<Rightarrow> Some (Inl e)
            | Some (Inr (prng1, arena1)) \<Rightarrow>
                (case deref arena1 tree of
                   None \<Rightarrow> Some (Inl DanglingPointer)
                 | Some t1 \<Rightarrow>
                     (case ucb_move G S arena1 t1 of
                        Inl e \<Rightarrow> Some (Inl e)
                      | Inr mv \<Rightarrow> Some (Inr (mv, prng1, arena1)))))
         else if player = 1 then
           (case random_move G D t prng of
              Inl e \<Rightarrow> Some (Inl e)
            | Inr (mv, prng1) \<Rightarrow>
                if \<not> is_move_explored t mv then Some (Inl AssertionFailed)
                else Some (Inr (mv, prng1, arena)))
         else Some (Inl AssertionFailed)))"

text \<open>
  The \<^verbatim>\<open>while (true)\<close> loop, with fuel for the number of passes:
  \<^verbatim>\<open>
  if (tree->state.winner() != NONE) break;
  ... choose move ...
  move_history.push_back(move);
  tree = tree->child(move);
  state_history.push_back(tree->state);
  \<close>
\<close>

fun play_loop ::
    "'g Game \<Rightarrow> 'r distribution \<Rightarrow> 'f scoring \<Rightarrow> nat \<Rightarrow> nat \<Rightarrow> ptr \<Rightarrow> 'r \<times> 'g Node Arena \<Rightarrow>
       'g list \<Rightarrow> nat list \<Rightarrow> (error + 'g list \<times> nat list) option" where
  "play_loop G D S n_rollouts 0 tree (prng, arena) state_history move_history = None"
| "play_loop G D S n_rollouts (Suc fuel) tree (prng, arena) state_history move_history =
     (case deref arena tree of
        None \<Rightarrow> Some (Inl DanglingPointer)
      | Some t \<Rightarrow>
          if winner G (state t) \<noteq> NONE then Some (Inr (state_history, move_history))
          else
            (case choose_move G D S n_rollouts fuel tree t (prng, arena) of
               None \<Rightarrow> None
             | Some (Inl e) \<Rightarrow> Some (Inl e)
             | Some (Inr (mv, prng1, arena1)) \<Rightarrow>
                 (case deref arena1 tree of
                    None \<Rightarrow> Some (Inl DanglingPointer)
                  | Some t1 \<Rightarrow>
                      (case child t1 mv of
                         None \<Rightarrow> Some (Inl NullPointer)
                       | Some c \<Rightarrow>
                           (case deref arena1 c of
                              None \<Rightarrow> Some (Inl DanglingPointer)
                            | Some cn \<Rightarrow>
                                play_loop G D S n_rollouts fuel c (prng1, arena1)
                                  (state_history @ [state cn]) (move_history @ [mv]))))))"

text \<open>
  \<^verbatim>\<open>
  Arena<Node<Game>> arena;
  Node<Game> *tree = arena.alloc(Game());
  std::vector<Game> state_history = { tree->state, };
  std::vector<uint> move_history;
  \<close>
\<close>

definition play_vs_random ::
    "'g Game \<Rightarrow> 'r distribution \<Rightarrow> 'f scoring \<Rightarrow> nat \<Rightarrow> 'r \<Rightarrow> nat \<Rightarrow>
       (error + 'g list \<times> nat list) option" where
  "play_vs_random G D S fuel prng n_rollouts =
     (let (tree, arena) = alloc [] (new_Node G (new_game G))
      in case deref arena tree of
           None \<Rightarrow> Some (Inl DanglingPointer)
         | Some t \<Rightarrow> play_loop G D S n_rollouts fuel tree (prng, arena) [state t] [])"

section \<open>Tic Tac Toe (tictactoe.hpp)\<close>

text \<open>
  \<^verbatim>\<open>uint xos[2] = {0, 0}; int iplayer = 0;\<close> The two boards are 32-bit words; \<open>iplayer\<close> only
  takes the values 0 and 1 and is a 32-bit word too.
\<close>

type_synonym uint = "32 word"

record TicTacToe =
  xos :: "uint list"
  iplayer :: uint

definition TicTacToe_init :: TicTacToe where
  "TicTacToe_init = \<lparr>xos = [0, 0], iplayer = 0\<rparr>"

text \<open>
  \<^verbatim>\<open>
  v = v - ((v >> 1) & 0x55555555);
  v = (v & 0x33333333) + ((v >> 2) & 0x33333333);
  return ((v + (v >> 4) & 0xF0F0F0F) * 0x1010101) >> 24;
  \<close>
  In C, \<^verbatim>\<open>+\<close> binds tighter than \<^verbatim>\<open>&\<close>.
\<close>

definition bitcount :: "uint \<Rightarrow> uint" where
  "bitcount v0 =
     (let v1 = v0 - (drop_bit 1 v0 AND 0x55555555);
          v2 = (v1 AND 0x33333333) + (drop_bit 2 v1 AND 0x33333333)
      in drop_bit 24 (((v2 + drop_bit 4 v2) AND 0xF0F0F0F) * 0x1010101))"

definition winning_states :: "uint list" where
  "winning_states = [0b000000111, 0b000111000, 0b111000000,
                     0b001001001, 0b010010010, 0b100100100,
                     0b100010001, 0b001010100]"

definition is_win :: "uint \<Rightarrow> bool" where
  "is_win st = list_ex (\<lambda>s. s AND st = s) winning_states"

definition TicTacToe_player_turn :: "TicTacToe \<Rightarrow> nat" where
  "TicTacToe_player_turn t = unat (iplayer t)"

definition TicTacToe_winner :: "TicTacToe \<Rightarrow> WinState" where
  "TicTacToe_winner t =
     (let w0 = is_win (xos t ! 0); w1 = is_win (xos t ! 1)
      in if \<not> (w0 \<or> w1) \<and> (xos t ! 0 OR xos t ! 1) = 0x1FF then TIE
         else if w0 then WIN
         else if w1 then LOSS
         else NONE)"

definition TicTacToe_n_valid_moves :: "TicTacToe \<Rightarrow> nat" where
  "TicTacToe_n_valid_moves t = unat (9 - bitcount (xos t ! 0 OR xos t ! 1))"

definition TicTacToe_is_valid :: "TicTacToe \<Rightarrow> nat \<Rightarrow> bool" where
  "TicTacToe_is_valid t mv =
     (let pos = push_bit mv 1 in (pos AND (xos t ! 0 OR xos t ! 1)) = 0)"

definition TicTacToe_move :: "TicTacToe \<Rightarrow> nat \<Rightarrow> TicTacToe" where
  "TicTacToe_move t mv =
     t\<lparr>xos := (xos t)[unat (iplayer t) := xos t ! unat (iplayer t) OR push_bit mv 1],
       iplayer := (iplayer t + 1) AND 1\<rparr>"

definition TicTacToe_game :: "TicTacToe Game" where
  "TicTacToe_game =
     \<lparr>n_moves = 9, new_game = TicTacToe_init, player_turn = TicTacToe_player_turn,
      winner = TicTacToe_winner, n_valid_moves = TicTacToe_n_valid_moves,
      is_valid = TicTacToe_is_valid, move = TicTacToe_move\<rparr>"

section \<open>Trees and rollouts: the notions the properties are stated with\<close>

text \<open>The moves of a node whose \<^verbatim>\<open>children\<close> slot is occupied, in increasing order.\<close>

definition explored_moves :: "'g Node \<Rightarrow> nat list" where
  "explored_moves n = filter (is_move_explored n) [0..<length (children n)]"

text \<open>The nodes that the \<^verbatim>\<open>children\<close> links lead to from a root.\<close>

inductive reachable :: "'g Node Arena \<Rightarrow> ptr \<Rightarrow> ptr \<Rightarrow> bool" for arena root where
  reachable_root: "reachable arena root root"
| reachable_child:
    "reachable arena root p \<Longrightarrow> deref arena p = Some n \<Longrightarrow> i < length (children n) \<Longrightarrow>
     children n ! i = Some c \<Longrightarrow> reachable arena root c"

text \<open>
  The arenas that a sequence of \<^verbatim>\<open>ucb_rollout\<close> calls produces: the tree starts as one fresh
  node in an empty arena, and every call that returns, with whatever state of the random
  source and from whatever node, gives the next arena.
\<close>

inductive after_rollouts ::
    "'g Game \<Rightarrow> 'r distribution \<Rightarrow> 'f scoring \<Rightarrow> ptr \<Rightarrow> 'g Node Arena \<Rightarrow> bool"
    for G D S root where
  after_none: "alloc [] (new_Node G s) = (root, arena) \<Longrightarrow> after_rollouts G D S root arena"
| after_rollout:
    "after_rollouts G D S root arena \<Longrightarrow>
     ucb_rollout G D S fuel this (rng, arena) = Some (Inr (w, rng', arena')) \<Longrightarrow>
     after_rollouts G D S root arena'"

text \<open>
  A path of nodes \<open>ps\<close> that starts at \<open>p\<close>, follows the only explored move of each node and
  ends in a leaf.
\<close>

inductive eager_path :: "'g Game \<Rightarrow> 'g Node Arena \<Rightarrow> ptr \<Rightarrow> ptr list \<Rightarrow> bool" for G arena where
  eager_leaf: "deref arena p = Some n \<Longrightarrow> is_leaf G n \<Longrightarrow> eager_path G arena p [p]"
| eager_step:
    "deref arena p = Some n \<Longrightarrow> \<not> is_leaf G n \<Longrightarrow> explored_moves n = [i] \<Longrightarrow>
     children n ! i = Some c \<Longrightarrow> eager_path G arena c ps \<Longrightarrow> eager_path G arena p (p # ps)"

text \<open>The valid moves of a state and the unplayed moves of a node, in increasing order.\<close>

definition valid_moves :: "'g Game \<Rightarrow> 'g \<Rightarrow> nat list" where
  "valid_moves G s = filter (is_valid G s) [0..<n_moves G]"

definition unplayed_moves :: "'g Game \<Rightarrow> 'g Node \<Rightarrow> nat list" where
  "unplayed_moves G n = filter (\<lambda>i. tries n ! i = 0 \<and> is_valid G (state n) i) [0..<n_moves G]"

text \<open>
  Move \<open>i\<close> of a node leads to a child whose state is a win for the player to move: \<^verbatim>\<open>WIN\<close> when
  player 0 moves, \<^verbatim>\<open>LOSS\<close> when player 1 moves.
\<close>

definition mover_wins :: "'g Game \<Rightarrow> 'g Node Arena \<Rightarrow> 'g Node \<Rightarrow> nat \<Rightarrow> bool" where
  "mover_wins G arena n i =
     (case child_winner G arena n i of
        Inl e \<Rightarrow> False
      | Inr w \<Rightarrow> (player_turn G (state n) = 0 \<and> w = WIN) \<or>
                 (player_turn G (state n) = 1 \<and> w = LOSS))"

text \<open>Move \<open>i\<close> of a node is explored, and its child is a node of the arena.\<close>

definition has_child :: "'g Game \<Rightarrow> 'g Node Arena \<Rightarrow> 'g Node \<Rightarrow> nat \<Rightarrow> bool" where
  "has_child G arena n i = (case child_winner G arena n i of Inl e \<Rightarrow> False | Inr w \<Rightarrow> True)"

text \<open>What holds of every node of a tree, in the terms of the counters' arithmetic.\<close>

definition node_inv :: "'g Game \<Rightarrow> 'g Node \<Rightarrow> bool" where
  "node_inv G n \<longleftrightarrow>
     length (children n) = n_moves G \<and> length (tries n) = n_moves G \<and>
     length (wins n) = n_moves G \<and>
     (\<forall>i < n_moves G. 0 \<le> tries n ! i \<and> tries n ! i \<le> 16777216 \<and>
        (children n ! i \<noteq> None \<longleftrightarrow> 0 < tries n ! i)) \<and>
     (winner_contract G \<longrightarrow> (\<forall>i < n_moves G. \<bar>wins n ! i\<bar> \<le> tries n ! i)) \<and>
     (if is_leaf G n
      then (\<forall>i < n_moves G. tries n ! i = 0 \<and> wins n ! i = 0) \<and>
           (tot_tries n = 0 \<or> tot_tries n = 1)
      else tot_tries n = min 16777216 (sum_list (tries n)))"

definition arena_inv :: "'g Game \<Rightarrow> 'g Node Arena \<Rightarrow> bool" where
  "arena_inv G arena \<longleftrightarrow> arena_wf arena \<and> (\<forall>p n. deref arena p = Some n \<longrightarrow> node_inv G n)"

text \<open>A later arena keeps every node of an earlier one, with its state and its children.\<close>

definition arena_extends :: "'g Node Arena \<Rightarrow> 'g Node Arena \<Rightarrow> bool" where
  "arena_extends arena arena' \<longleftrightarrow>
     (\<forall>p n. deref arena p = Some n \<longrightarrow>
        (\<exists>n'. deref arena' p = Some n' \<and> state n' = state n \<and>
              (\<forall>i. children n ! i \<noteq> None \<longrightarrow> children n' ! i = children n ! i)))"

section \<open>A random source and a score for concrete runs\<close>

text \<open>
  A random source that replays a list of raw draws, reduced to the requested range; an
  exhausted list keeps returning the lower bound.
\<close>

definition replay_dist :: "nat list distribution" where
  "replay_dist lo hi rng =
     (case rng of [] \<Rightarrow> (lo, []) | x # xs \<Rightarrow> (lo + x mod (hi - lo + 1), xs))"

text \<open>
  An integer-valued stand-in for the score: the mean outcome for the mover plus a bonus that
  shrinks with the number of tries, both in thousandths.
\<close>

definition int_scoring :: "int scoring" where
  "int_scoring =
     \<lparr>neg_infinity = - 1000000, greater = (\<lambda>a b. b < a),
      ucb = (\<lambda>flip w t tot. flip * w * 1000 div t + 1000 * tot div t)\<rparr>"

section \<open>Games that end, and random sources that stay in range\<close>

text \<open>
  What \<^verbatim>\<open>std::uniform_int_distribution<uint> dist(lo, hi)\<close> promises of every draw: a value of
  the closed range.
\<close>

definition dist_contract :: "'r distribution \<Rightarrow> bool" where
  "dist_contract D = (\<forall>lo hi rng. lo \<le> hi \<longrightarrow> lo \<le> fst (D lo hi rng) \<and> fst (D lo hi rng) \<le> hi)"

text \<open>
  A game ends when, on the states \<open>ok\<close> it is played on, a state without a winner has a valid
  move, and every valid move leads to such a state of a smaller \<open>rank\<close>.
\<close>

definition game_ends :: "'g Game \<Rightarrow> ('g \<Rightarrow> bool) \<Rightarrow> ('g \<Rightarrow> nat) \<Rightarrow> bool" where
  "game_ends G ok rank =
     (\<forall>s. ok s \<longrightarrow> winner G s = NONE \<longrightarrow>
        (\<exists>i < n_moves G. is_valid G s i) \<and>
        (\<forall>i < n_moves G. is_valid G s i \<longrightarrow> ok (move G s i) \<and> rank (move G s i) < rank s))"

text \<open>
  The boards of Tic Tac Toe: \<^verbatim>\<open>xos\<close> has its two entries, the marks are among the nine cells,
  and \<^verbatim>\<open>iplayer\<close> is 0 or 1. The rank of a board is the number of its free cells.
\<close>

definition TicTacToe_ok :: "TicTacToe \<Rightarrow> bool" where
  "TicTacToe_ok t \<longleftrightarrow>
     length (xos t) = 2 \<and> iplayer t < 2 \<and> take_bit 9 (xos t ! 0 OR xos t ! 1) = (xos t ! 0 OR xos t ! 1)"

definition TicTacToe_rank :: "TicTacToe \<Rightarrow> nat" where
  "TicTacToe_rank t = length (valid_moves TicTacToe_game t)"

section \<open>Concrete trees on Tic Tac Toe endgames\<close>

text \<open>
  Two positions six moves into a game, player 0 to move, three cells free. In \<open>endgame_win\<close>
  player 0 holds cells 0, 6, 7 and wins at once with move 8; in \<open>endgame_tie\<close> player 0 holds
  0, 1, 5 and the game can still be tied or lost.
\<close>

definition endgame_win :: TicTacToe where
  "endgame_win = foldl TicTacToe_move TicTacToe_init [0, 1, 6, 3, 7, 4]"

definition endgame_tie :: TicTacToe where
  "endgame_tie = foldl TicTacToe_move TicTacToe_init [0, 3, 1, 4, 5, 2]"

text \<open>Tic Tac Toe taken up at \<open>endgame_tie\<close>, for the driver.\<close>

definition endgame_game :: "TicTacToe Game" where
  "endgame_game = TicTacToe_game\<lparr>new_game := endgame_tie\<rparr>"

text \<open>A tree of one fresh node on \<open>endgame_win\<close> in a new arena.\<close>

definition root0 :: ptr where
  "root0 = fst (alloc [] (new_Node TicTacToe_game endgame_win))"

definition arena0 :: "TicTacToe Node Arena" where
  "arena0 = snd (alloc [] (new_Node TicTacToe_game endgame_win))"

text \<open>
  The nodes of that tree after one rollout, which plays move 2 and then move 5, where player 1
  has won, and after three rollouts.
\<close>

definition root1 :: "TicTacToe Node" where
  "root1 =
     \<lparr>state = \<lparr>xos = [193, 26], iplayer = 0\<rparr>, tot_tries = 1,
      children = [None, None, Some (Ptr 0 1 1), None, None, None, None, None, None],
      tries = [0, 0, 1, 0, 0, 0, 0, 0, 0],
      wins = [0, 0, - 1, 0, 0, 0, 0, 0, 0]\<rparr>"

definition node_2 :: "TicTacToe Node" where
  "node_2 =
     \<lparr>state = \<lparr>xos = [197, 26], iplayer = 1\<rparr>, tot_tries = 1,
      children = [None, None, None, None, None, Some (Ptr 0 1 2), None, None, None],
      tries = [0, 0, 0, 0, 0, 1, 0, 0, 0],
      wins = [0, 0, 0, 0, 0, - 1, 0, 0, 0]\<rparr>"

definition leaf_25 :: "TicTacToe Node" where
  "leaf_25 =
     \<lparr>state = \<lparr>xos = [197, 58], iplayer = 0\<rparr>, tot_tries = 1,
      children = [None, None, None, None, None, None, None, None, None],
      tries = [0, 0, 0, 0, 0, 0, 0, 0, 0],
      wins = [0, 0, 0, 0, 0, 0, 0, 0, 0]\<rparr>"

definition arena1 :: "TicTacToe Node Arena" where
  "arena1 = [\<lparr>elems = [root1, node_2, leaf_25], capacity = 4096, buffer = 1\<rparr>]"

definition root3 :: "TicTacToe Node" where
  "root3 =
     \<lparr>state = \<lparr>xos = [193, 26], iplayer = 0\<rparr>, tot_tries = 3,
      children = [None, None, Some (Ptr 0 1 1), None, None, Some (Ptr 0 1 3), None, None,
                  Some (Ptr 0 1 6)],
      tries = [0, 0, 1, 0, 0, 1, 0, 0, 1],
      wins = [0, 0, - 1, 0, 0, 1, 0, 0, 1]\<rparr>"

definition node_5 :: "TicTacToe Node" where
  "node_5 =
     \<lparr>state = \<lparr>xos = [225, 26], iplayer = 1\<rparr>, tot_tries = 1,
      children = [None, None, Some (Ptr 0 1 4), None, None, None, None, None, None],
      tries = [0, 0, 1, 0, 0, 0, 0, 0, 0],
      wins = [0, 0, 1, 0, 0, 0, 0, 0, 0]\<rparr>"

definition node_52 :: "TicTacToe Node" where
  "node_52 =
     \<lparr>state = \<lparr>xos = [225, 30], iplayer = 0\<rparr>, tot_tries = 1,
      children = [None, None, None, None, None, None, None, None, Some (Ptr 0 1 5)],
      tries = [0, 0, 0, 0, 0, 0, 0, 0, 1],
      wins = [0, 0, 0, 0, 0, 0, 0, 0, 1]\<rparr>"

definition leaf_528 :: "TicTacToe Node" where
  "leaf_528 =
     \<lparr>state = \<lparr>xos = [481, 30], iplayer = 1\<rparr>, tot_tries = 1,
      children = [None, None, None, None, None, None, None, None, None],
      tries = [0, 0, 0, 0, 0, 0, 0, 0, 0],
      wins = [0, 0, 0, 0, 0, 0, 0, 0, 0]\<rparr>"

definition leaf_8 :: "TicTacToe Node" where
  "leaf_8 =
     \<lparr>state = \<lparr>xos = [449, 26], iplayer = 1\<rparr>, tot_tries = 1,
      children = [None, None, None, None, None, None, None, None, None],
      tries = [0, 0, 0, 0, 0, 0, 0, 0, 0],
      wins = [0, 0, 0, 0, 0, 0, 0, 0, 0]\<rparr>"

definition arena3 :: "TicTacToe Node Arena" where
  "arena3 =
     [\<lparr>elems = [root3, node_2, leaf_25, node_5, node_52, leaf_528, leaf_8],
       capacity = 4096, buffer = 1\<rparr>]"

text \<open>
  The tree the driver starts with, one fresh node on the empty board, and its arena after the
  first rollout when every draw of the random source is the lower bound: the rollout plays
  the moves 0, 1, ..., 6, and player 0 has won with the cells 2, 4, 6.
\<close>

definition opening_root :: ptr where
  "opening_root = fst (alloc [] (new_Node TicTacToe_game TicTacToe_init))"

definition opening_arena :: "TicTacToe Node Arena" where
  "opening_arena = snd (alloc [] (new_Node TicTacToe_game TicTacToe_init))"

definition opening_leaf :: "TicTacToe Node" where
  "opening_leaf =
     \<lparr>state = \<lparr>xos = [85, 42], iplayer = 1\<rparr>, tot_tries = 1,
      children = [None, None, None, None, None, None, None, None, None],
      tries = [0, 0, 0, 0, 0, 0, 0, 0, 0],
      wins = [0, 0, 0, 0, 0, 0, 0, 0, 0]\<rparr>"

definition opening_arena1 :: "TicTacToe Node Arena" where
  "opening_arena1 =
     [\<lparr>elems =
        [\<lparr>state = \<lparr>xos = [0, 0], iplayer = 0\<rparr>, tot_tries = 1,
          children = [Some (Ptr 0 1 1), None, None, None, None, None, None, None, None],
          tries = [1, 0, 0, 0, 0, 0, 0, 0, 0], wins = [1, 0, 0, 0, 0, 0, 0, 0, 0]\<rparr>,
         \<lparr>state = \<lparr>xos = [1, 0], iplayer = 1\<rparr>, tot_tries = 1,
          children = [None, Some (Ptr 0 1 2), None, None, None, None, None, None, None],
          tries = [0, 1, 0, 0, 0, 0, 0, 0, 0], wins = [0, 1, 0, 0, 0, 0, 0, 0, 0]\<rparr>,
         \<lparr>state = \<lparr>xos = [1, 2], iplayer = 0\<rparr>, tot_tries = 1,
          children = [None, None, Some (Ptr 0 1 3), None, None, None, None, None, None],
          tries = [0, 0, 1, 0, 0, 0, 0, 0, 0], wins = [0, 0, 1, 0, 0, 0, 0, 0, 0]\<rparr>,
         \<lparr>state = \<lparr>xos = [5, 2], iplayer = 1\<rparr>, tot_tries = 1,
          children = [None, None, None, Some (Ptr 0 1 4), None, None, None, None, None],
          tries = [0, 0, 0, 1, 0, 0, 0, 0, 0], wins = [0, 0, 0, 1, 0, 0, 0, 0, 0]\<rparr>,
         \<lparr>state = \<lparr>xos = [5, 10], iplayer = 0\<rparr>, tot_tries = 1,
          children = [None, None, None, None, Some (Ptr 0 1 5), None, None, None, None],
          tries = [0, 0, 0, 0, 1, 0, 0, 0, 0], wins = [0, 0, 0, 0, 1, 0, 0, 0, 0]\<rparr>,
         \<lparr>state = \<lparr>xos = [21, 10], iplayer = 1\<rparr>, tot_tries = 1,
          children = [None, None, None, None, None, Some (Ptr 0 1 6), None, None, None],
          tries = [0, 0, 0, 0, 0, 1, 0, 0, 0], wins = [0, 0, 0, 0, 0, 1, 0, 0, 0]\<rparr>,
         \<lparr>state = \<lparr>xos = [21, 42], iplayer = 0\<rparr>, tot_tries = 1,
          children = [None, None, None, None, None, None, Some (Ptr 0 1 7), None, None],
          tries = [0, 0, 0, 0, 0, 0, 1, 0, 0], wins = [0, 0, 0, 0, 0, 0, 1, 0, 0]\<rparr>,
         opening_leaf],
       capacity = 4096, buffer = 1\<rparr>]"

text \<open>A tree of one fresh node on a state that player 0 has won.\<close>

definition fresh_leaf :: "TicTacToe Node" where
  "fresh_leaf = new_Node TicTacToe_game (TicTacToe_move endgame_win 8)"

definition leaf_root :: ptr where
  "leaf_root = fst (alloc [] fresh_leaf)"

definition leaf_arena :: "TicTacToe Node Arena" where
  "leaf_arena = snd (alloc [] fresh_leaf)"

text \<open>The game the driver plays from \<open>endgame_tie\<close> with three rollouts per move.\<close>

definition endgame_states :: "TicTacToe list" where
  "endgame_states =
     [\<lparr>xos = [35, 28], iplayer = 0\<rparr>, \<lparr>xos = [99, 28], iplayer = 1\<rparr>,
      \<lparr>xos = [99, 156], iplayer = 0\<rparr>, \<lparr>xos = [355, 156], iplayer = 1\<rparr>]"

section \<open>Properties of the arena\<close>

lemma arena_wf_Nil: "arena_wf []"
  by (simp add: arena_wf_def)

lemma NBlock_pos: "0 < NBlock"
  by (simp add: NBlock_def)

lemma alloc_cases:
  assumes "arena_wf blocks"
  shows "(blocks = [] \<or> length (elems (hd blocks)) = NBlock) \<and>
           alloc blocks x = (Ptr (length blocks) 1 0,
              \<lparr>elems = [x], capacity = NBlock, buffer = 1\<rparr> # blocks)
       \<or> (\<exists>v vs. blocks = v # vs \<and> length (elems v) < NBlock \<and>
           alloc blocks x = (Ptr (length vs) (buffer v) (length (elems v)),
              v\<lparr>elems := elems v @ [x]\<rparr> # vs))"
proof (cases "blocks = [] \<or> length (elems (hd blocks)) = NBlock")
  case True
  then show ?thesis
    using NBlock_pos
    by (simp add: alloc_def reserve_def empty_vector_def emplace_back_def Let_def)
next
  case False
  then obtain v vs where b: "blocks = v # vs" and l: "length (elems v) \<noteq> NBlock"
    by (cases blocks) auto
  from assms b have "length (elems v) \<le> NBlock" "NBlock \<le> capacity v"
    by (simp_all add: arena_wf_def)
  with l have "length (elems v) < NBlock" "length (elems v) < capacity v" by simp_all
  then show ?thesis using b
    by (simp add: alloc_def emplace_back_def Let_def)
qed

lemma alloc_wf: "arena_wf blocks \<Longrightarrow> arena_wf (snd (alloc blocks x))"
  using alloc_cases [of blocks x] NBlock_pos
  by (auto simp: arena_wf_def)


lemma deref_Cons:
  "deref (v # vs) q =
     (if blk q = length vs
      then (if buffer v = buf q \<and> idx q < length (elems v) then Some (elems v ! idx q) else None)
      else deref vs q)"
  by (simp add: deref_def Let_def nth_append)

lemma deref_alloc:
  assumes "arena_wf blocks"
  shows "deref (snd (alloc blocks x)) q =
           (if q = fst (alloc blocks x) then Some x else deref blocks q)"
proof -
  consider (new) "alloc blocks x = (Ptr (length blocks) 1 0,
              \<lparr>elems = [x], capacity = NBlock, buffer = 1\<rparr> # blocks)"
    | (app) v vs where "blocks = v # vs"
        "alloc blocks x = (Ptr (length vs) (buffer v) (length (elems v)),
              v\<lparr>elems := elems v @ [x]\<rparr> # vs)"
    using alloc_cases [OF assms, of x] by blast
  then show ?thesis
  proof cases
    case new
    have "deref blocks q = None" if "blk q = length blocks"
      using that by (simp add: deref_def)
    with new show ?thesis
      by (cases q) (simp add: deref_Cons)
  next
    case app
    then show ?thesis
      by (cases q) (simp add: deref_Cons nth_append)
  qed
qed

lemma deref_fresh:
  assumes "arena_wf blocks"
  shows "deref blocks (fst (alloc blocks x)) = None"
  using alloc_cases [OF assms, of x]
  by (auto simp: deref_Cons) (simp_all add: deref_def)

lemma deref_store:
  "deref (store blocks p x) q =
     (if q = p \<and> deref blocks p \<noteq> None then Some x else deref blocks q)"
proof (cases "deref blocks p")
  case None
  then show ?thesis by (simp add: store_def)
next
  case (Some y)
  then have b: "blk p < length blocks" and g: "buffer (rev blocks ! blk p) = buf p"
    and i: "idx p < length (elems (rev blocks ! blk p))"
    by (simp_all add: deref_def Let_def split: if_splits)
  define k where "k = length blocks - 1 - blk p"
  define v where "v = rev blocks ! blk p"
  have k: "k < length blocks" "blocks ! k = v"
    using b by (simp_all add: k_def v_def rev_nth)
  define w where "w = v\<lparr>elems := (elems v)[idx p := x]\<rparr>"
  have st: "store blocks p x = blocks[k := w]"
    using Some k(2) by (simp add: store_def Let_def k_def w_def)
  have r: "rev (blocks[k := w]) = (rev blocks)[blk p := w]"
    using b by (simp add: k_def rev_update)
  have w: "buffer w = buf p" "length (elems w) = length (elems v)"
    "elems w = (elems v)[idx p := x]"
    using g by (simp_all add: w_def v_def)
  show ?thesis
  proof (cases "blk q = blk p")
    case True
    have d1: "deref (store blocks p x) q =
        (if buf p = buf q \<and> idx q < length (elems v) then Some ((elems v)[idx p := x] ! idx q) else None)"
      using True b by (simp add: st deref_def r w Let_def)
    have d2: "deref blocks q =
        (if buf p = buf q \<and> idx q < length (elems v) then Some (elems v ! idx q) else None)"
      using True b g by (simp add: deref_def v_def Let_def)
    have eq: "q = p \<longleftrightarrow> buf q = buf p \<and> idx q = idx p"
      using True by (cases p; cases q) simp
    show ?thesis
      unfolding d1 d2 using Some i by (auto simp: eq v_def)
  next
    case False
    then have "deref (store blocks p x) q = deref blocks q"
      by (simp add: st deref_def r Let_def)
    with False show ?thesis by auto
  qed
qed

lemma store_wf: "arena_wf blocks \<Longrightarrow> arena_wf (store blocks p x)"
proof (cases "deref blocks p")
  case None
  then show "arena_wf blocks \<Longrightarrow> arena_wf (store blocks p x)" by (simp add: store_def)
next
  case (Some y)
  assume wf: "arena_wf blocks"
  from Some have b: "blk p < length blocks"
    by (simp add: deref_def split: if_splits)
  define k where "k = length blocks - 1 - blk p"
  have k: "k < length blocks" using b by (simp add: k_def)
  define w where "w = (blocks ! k)\<lparr>elems := (elems (blocks ! k))[idx p := x]\<rparr>"
  have st: "store blocks p x = blocks[k := w]"
    using Some by (simp add: store_def Let_def k_def w_def)
  have "blocks ! k \<in> set blocks" using k by simp
  with wf have "length (elems w) \<le> NBlock \<and> NBlock \<le> capacity w"
    by (simp add: arena_wf_def w_def)
  moreover have "set (blocks[k := w]) \<subseteq> insert w (set blocks)"
    by (rule set_update_subset_insert)
  ultimately show "arena_wf (store blocks p x)"
    using wf unfolding st arena_wf_def by blast
qed

lemma allocs_wf: "arena_wf blocks \<Longrightarrow> arena_wf (allocs blocks ys)"
  by (induction ys arbitrary: blocks) (simp_all add: alloc_wf)

lemma deref_allocs:
  "arena_wf blocks \<Longrightarrow> deref blocks p = Some x \<Longrightarrow> deref (allocs blocks ys) p = Some x"
proof (induction ys arbitrary: blocks)
  case Nil
  then show ?case by simp
next
  case (Cons y ys)
  from Cons.prems have "p \<noteq> fst (alloc blocks y)"
    using deref_fresh [of blocks y] by auto
  with Cons.prems have "deref (snd (alloc blocks y)) p = Some x"
    by (simp add: deref_alloc)
  with Cons.IH [of "snd (alloc blocks y)"] Cons.prems(1) show ?case
    by (simp add: alloc_wf)
qed

section \<open>Properties of the counters' arithmetic\<close>

lemma floorlog_small: "a < 16777216 \<Longrightarrow> floorlog 2 a \<le> 24"
  by (simp add: floorlog_le_iff)

lemma floorlog_2p24: "floorlog 2 16777216 = 25"
proof -
  have "floorlog 2 (1 * 2 ^ 24) = floorlog 2 1 + 24"
    by (rule floorlog_power) simp_all
  moreover have "floorlog 2 1 = 1" by (simp add: floorlog_def)
  ultimately show ?thesis by simp
qed

lemma floorlog_2p24_1: "floorlog 2 16777217 = 25"
proof -
  have "floorlog 2 16777217 = floorlog 2 16777216"
    by (rule floorlog_eq_if) simp_all
  then show ?thesis by (simp add: floorlog_2p24)
qed

lemma f32_exact: "\<bar>z\<bar> \<le> 16777216 \<Longrightarrow> f32 z = z"
proof -
  assume b: "\<bar>z\<bar> \<le> 16777216"
  show ?thesis
  proof (cases "\<bar>z\<bar> = 16777216")
    case True
    then have "nat \<bar>z\<bar> = 16777216" by simp
    then have "floorlog 2 (nat \<bar>z\<bar>) - 24 = 1" by (simp add: floorlog_2p24)
    with True show ?thesis
      by (simp add: f32_def Let_def) (simp add: sgn_if abs_if split: if_splits)
  next
    case False
    with b have "nat \<bar>z\<bar> < 16777216" by simp
    then have "floorlog 2 (nat \<bar>z\<bar>) - 24 = 0"
      using floorlog_small by simp
    then show ?thesis
      by (simp add: f32_def Let_def) (simp add: sgn_if abs_if)
  qed
qed

lemma f32_saturate_up: "f32 16777217 = 16777216"
proof -
  have "floorlog 2 (nat \<bar>16777217\<bar>) - 24 = 1" by (simp add: floorlog_2p24_1)
  then show ?thesis by (simp add: f32_def Let_def)
qed

lemma f32_saturate_down: "f32 (- 16777217) = - 16777216"
proof -
  have "floorlog 2 (nat \<bar>- 16777217\<bar>) - 24 = 1" by (simp add: floorlog_2p24_1)
  then show ?thesis by (simp add: f32_def Let_def)
qed

section \<open>Moves are in range\<close>

lemma f32_inc: "0 \<le> t \<Longrightarrow> t \<le> 16777216 \<Longrightarrow> f32 (t + 1) = min 16777216 (t + 1)"
proof (cases "t = 16777216")
  case True
  then show ?thesis by (simp add: f32_saturate_up)
next
  case False
  assume "0 \<le> t" "t \<le> 16777216"
  with False have "\<bar>t + 1\<bar> \<le> 16777216" by simp
  then have "f32 (t + 1) = t + 1" by (rule f32_exact)
  with False \<open>t \<le> 16777216\<close> show ?thesis by simp
qed

lemma f32_clamp: "\<bar>z\<bar> \<le> 16777217 \<Longrightarrow> \<bar>f32 z\<bar> \<le> 16777216 \<and> \<bar>f32 z\<bar> \<le> \<bar>z\<bar>"
proof -
  assume b: "\<bar>z\<bar> \<le> 16777217"
  consider "z = 16777217" | "z = - 16777217" | "\<bar>z\<bar> \<le> 16777216"
    using b by linarith
  then show ?thesis
  proof cases
    case 1
    then show ?thesis by (simp add: f32_saturate_up)
  next
    case 2
    then show ?thesis by (simp add: f32_saturate_down)
  next
    case 3
    then show ?thesis by (simp add: f32_exact)
  qed
qed

lemma sum_list_update_int:
  "i < length xs \<Longrightarrow> sum_list (xs[i := v]) = sum_list xs - xs ! i + (v::int)"
  by (induction xs arbitrary: i) (auto split: nat.splits)

lemma nth_le_sum_list_int:
  "\<forall>i < length xs. 0 \<le> xs ! i \<Longrightarrow> i < length xs \<Longrightarrow> xs ! i \<le> sum_list (xs::int list)"
proof (induction xs arbitrary: i)
  case Nil
  then show ?case by simp
next
  case (Cons x xs)
  have nn: "\<forall>j < length xs. 0 \<le> xs ! j"
    using Cons.prems(1) by auto
  then have s: "0 \<le> sum_list xs"
    by (auto intro!: sum_list_nonneg simp: in_set_conv_nth)
  have x: "0 \<le> x" using Cons.prems(1) by auto
  show ?case
  proof (cases i)
    case 0
    with s show ?thesis by simp
  next
    case (Suc j)
    with Cons.prems(2) have "xs ! j \<le> sum_list xs"
      using Cons.IH [OF nn] by simp
    with Suc x show ?thesis by simp
  qed
qed

lemma sum_list_nonneg_nth:
  "\<forall>i < length xs. 0 \<le> xs ! i \<Longrightarrow> 0 \<le> sum_list (xs::int list)"
  by (auto intro!: sum_list_nonneg simp: in_set_conv_nth)

lemma scan_moves_mem: "scan_moves q k is c = Inr i \<Longrightarrow> i \<in> set is"
  by (induction "is" arbitrary: c) (auto simp: Let_def split: if_splits)

lemma random_unplayed_move_lt:
  "random_unplayed_move G D n rng = Inr (mv, rng') \<Longrightarrow> mv < n_moves G"
  by (auto simp: random_unplayed_move_def Let_def split: if_splits prod.splits sum.splits
      dest!: scan_moves_mem)

lemma random_move_lt:
  "random_move G D n rng = Inr (mv, rng') \<Longrightarrow> mv < n_moves G"
  by (auto simp: random_move_def Let_def split: if_splits prod.splits sum.splits
      dest!: scan_moves_mem)

lemma ucb_loop_mem:
  "ucb_loop G S ar n pl fl is um im = Inr i \<Longrightarrow> i \<in> set is \<or> im = Some i"
proof (induction "is" arbitrary: um im)
  case Nil
  then show ?case by (simp split: option.splits)
next
  case (Cons j js)
  show ?case
  proof (cases "is_valid G (state n) j")
    case False
    with Cons.prems have "ucb_loop G S ar n pl fl js um im = Inr i" by simp
    from Cons.IH [OF this] show ?thesis by auto
  next
    case True
    note valid = this
    show ?thesis
    proof (cases "if pl = 0 then map_sum id (\<lambda>w. w = WIN) (child_winner G ar n j)
               else if pl = 1 then map_sum id (\<lambda>w. w = LOSS) (child_winner G ar n j)
               else Inr False")
      case (Inl e)
      with Cons.prems valid show ?thesis by simp
    next
      case (Inr b)
      show ?thesis
      proof (cases b)
        case True
        with Inr Cons.prems valid show ?thesis by simp
      next
        case False
        show ?thesis
        proof (cases "greater S (ucb S fl (wins n ! j) (tries n ! j) (tot_tries n)) um")
          case True
          with False Inr Cons.prems valid
          have "ucb_loop G S ar n pl fl js (ucb S fl (wins n ! j) (tries n ! j) (tot_tries n)) (Some j) = Inr i"
            by (simp add: Let_def)
          from Cons.IH [OF this] show ?thesis by auto
        next
          case g: False
          with False Inr Cons.prems valid
          have "ucb_loop G S ar n pl fl js um im = Inr i"
            by (simp add: Let_def)
          from Cons.IH [OF this] show ?thesis by auto
        qed
      qed
    qed
  qed
qed

lemma ucb_move_lt: "ucb_move G S ar n = Inr mv \<Longrightarrow> mv < n_moves G"
  by (auto simp: ucb_move_def Let_def split: if_splits dest!: ucb_loop_mem)

section \<open>The invariant of a node\<close>

lemma node_inv_new: "node_inv G (new_Node G s)"
  by (simp add: node_inv_def new_Node_def is_leaf_def sum_list_replicate)

lemma node_inv_leaf_try:
  "node_inv G n \<Longrightarrow> is_leaf G n \<Longrightarrow> node_inv G (n\<lparr>tot_tries := 1\<rparr>)"
  by (simp add: node_inv_def is_leaf_def)

lemma Node_update_Inr:
  assumes "Node_update n mv w = Inr n'"
  shows "f32 w \<noteq> NONE"
    and "n' = n\<lparr>tries := (tries n)[mv := f32 (tries n ! mv + 1)],
               tot_tries := f32 (tot_tries n + 1),
               wins := (wins n)[mv := f32 (wins n ! mv + f32 w)]\<rparr>"
  using assms by (auto simp: Node_update_def Let_def split: if_splits)

lemma contract_delta:
  assumes "winner_contract G" "w = winner G s" "f32 w \<noteq> NONE"
  shows "f32 w = w \<and> \<bar>w\<bar> \<le> 1"
proof -
  from assms(1,2) have "w \<in> {WIN, TIE, LOSS, NONE}"
    by (simp add: winner_contract_def)
  then have e: "f32 w = w" by (auto simp: f32_exact)
  with assms(3) \<open>w \<in> {WIN, TIE, LOSS, NONE}\<close> show ?thesis by auto
qed

lemma node_inv_update:
  assumes inv: "node_inv G n" and nl: "\<not> is_leaf G n" and mv: "mv < n_moves G"
    and cs: "length cs = n_moves G" "cs ! mv \<noteq> None"
      "\<forall>i < n_moves G. i \<noteq> mv \<longrightarrow> cs ! i = children n ! i"
    and w: "winner_contract G \<longrightarrow> (\<exists>s. w = winner G s)"
    and upd: "Node_update (n\<lparr>children := cs\<rparr>) mv w = Inr n'"
  shows "node_inv G n'"
proof -
  define t where "t = tries n ! mv"
  define sm where "sm = sum_list (tries n)"
  from inv have len: "length (children n) = n_moves G" "length (tries n) = n_moves G"
      "length (wins n) = n_moves G"
    and tr: "\<forall>i < n_moves G. 0 \<le> tries n ! i \<and> tries n ! i \<le> 16777216 \<and>
        (children n ! i \<noteq> None \<longleftrightarrow> 0 < tries n ! i)"
    and wn: "winner_contract G \<longrightarrow> (\<forall>i < n_moves G. \<bar>wins n ! i\<bar> \<le> tries n ! i)"
    and tot: "tot_tries n = min 16777216 sm"
    using nl by (simp_all add: node_inv_def sm_def)
  from tr mv have t: "0 \<le> t" "t \<le> 16777216" by (simp_all add: t_def)
  have t': "f32 (t + 1) = min 16777216 (t + 1)" using t by (rule f32_inc)
  from upd have d: "f32 w \<noteq> NONE"
    and n': "n' = n\<lparr>children := cs, tries := (tries n)[mv := f32 (t + 1)],
               tot_tries := f32 (tot_tries n + 1),
               wins := (wins n)[mv := f32 (wins n ! mv + f32 w)]\<rparr>"
    using Node_update_Inr [OF upd] by (simp_all add: t_def)
  have st: "state n' = state n" by (simp add: n')
  have nl': "\<not> is_leaf G n'" using nl by (simp add: is_leaf_def st)
  have l': "length (children n') = n_moves G" "length (tries n') = n_moves G"
      "length (wins n') = n_moves G"
    using len cs(1) by (simp_all add: n')
  have tr': "0 \<le> tries n' ! i \<and> tries n' ! i \<le> 16777216 \<and>
        (children n' ! i \<noteq> None \<longleftrightarrow> 0 < tries n' ! i)" if "i < n_moves G" for i
  proof (cases "i = mv")
    case True
    have "tries n' ! i = min 16777216 (t + 1)"
      using True mv len by (simp add: n' t')
    moreover have "children n' ! i \<noteq> None" using True cs(2) by (simp add: n')
    ultimately show ?thesis using t by simp
  next
    case False
    then have "tries n' ! i = tries n ! i" "children n' ! i = children n ! i"
      using that cs(3) by (simp_all add: n')
    with tr that show ?thesis by simp
  qed
  have wn': "\<bar>wins n' ! i\<bar> \<le> tries n' ! i" if c: "winner_contract G" and i: "i < n_moves G" for i
  proof (cases "i = mv")
    case True
    from w c obtain s where "w = winner G s" by blast
    from contract_delta [OF c this d] have dw: "f32 w = w" "\<bar>w\<bar> \<le> 1" by simp_all
    from wn c mv have b: "\<bar>wins n ! mv\<bar> \<le> t" by (simp add: t_def)
    have wi: "wins n' ! i = f32 (wins n ! mv + w)"
      using True mv len by (simp add: n' dw)
    have ti: "tries n' ! i = min 16777216 (t + 1)"
      using True mv len by (simp add: n' t')
    from b dw(2) have z: "\<bar>wins n ! mv + w\<bar> \<le> t + 1" by linarith
    with t have "\<bar>wins n ! mv + w\<bar> \<le> 16777217" by linarith
    from f32_clamp [OF this] z
    have "\<bar>f32 (wins n ! mv + w)\<bar> \<le> 16777216" "\<bar>f32 (wins n ! mv + w)\<bar> \<le> t + 1"
      by linarith+
    then show ?thesis by (simp add: wi ti)
  next
    case False
    then have "tries n' ! i = tries n ! i" "wins n' ! i = wins n ! i"
      by (simp_all add: n')
    with wn c i show ?thesis by simp
  qed
  have nn: "\<forall>i < length (tries n). 0 \<le> tries n ! i" using tr len by simp
  have sm0: "0 \<le> sm" unfolding sm_def using nn by (rule sum_list_nonneg_nth)
  have tsm: "t \<le> sm" unfolding sm_def t_def using nn mv len
    by (intro nth_le_sum_list_int) simp_all
  have sm': "sum_list (tries n') = sm - t + min 16777216 (t + 1)"
    using mv len t' by (simp add: n' sum_list_update_int sm_def t_def)
  have "0 \<le> tot_tries n" "tot_tries n \<le> 16777216" using tot sm0 by simp_all
  then have "f32 (tot_tries n + 1) = min 16777216 (tot_tries n + 1)" by (rule f32_inc)
  then have tot': "tot_tries n' = min 16777216 (min 16777216 sm + 1)"
    by (simp add: n' tot)
  have "tot_tries n' = min 16777216 (sum_list (tries n'))"
    unfolding tot' sm' using t tsm by (simp add: min_def)
  with l' tr' wn' nl' show ?thesis
    by (simp add: node_inv_def)
qed

section \<open>The invariant of an arena of nodes\<close>

lemma arena_extends_refl: "arena_extends ar ar"
  by (simp add: arena_extends_def)

lemma arena_extends_trans:
  assumes "arena_extends a b" "arena_extends b c"
  shows "arena_extends a c"
  unfolding arena_extends_def
proof (intro allI impI)
  fix p n
  assume "deref a p = Some n"
  with assms(1) obtain n1 where 1: "deref b p = Some n1" "state n1 = state n"
      "\<forall>i. children n ! i \<noteq> None \<longrightarrow> children n1 ! i = children n ! i"
    unfolding arena_extends_def by blast
  with assms(2) obtain n2 where 2: "deref c p = Some n2" "state n2 = state n1"
      "\<forall>i. children n1 ! i \<noteq> None \<longrightarrow> children n2 ! i = children n1 ! i"
    unfolding arena_extends_def by blast
  have "\<forall>i. children n ! i \<noteq> None \<longrightarrow> children n2 ! i = children n ! i"
    using 1(3) 2(3) by metis
  with 1 2 show "\<exists>n'. deref c p = Some n' \<and> state n' = state n \<and>
      (\<forall>i. children n ! i \<noteq> None \<longrightarrow> children n' ! i = children n ! i)"
    by simp
qed

lemma arena_extends_store:
  assumes "deref ar p = Some n" "state x = state n"
    "\<forall>i. children n ! i \<noteq> None \<longrightarrow> children x ! i = children n ! i"
  shows "arena_extends ar (store ar p x)"
  using assms by (auto simp: arena_extends_def deref_store)

lemma arena_inv_store:
  "arena_inv G ar \<Longrightarrow> node_inv G x \<Longrightarrow> arena_inv G (store ar p x)"
  by (auto simp: arena_inv_def store_wf deref_store split: if_splits)

lemma arena_inv_alloc:
  assumes "arena_inv G ar" "alloc ar (new_Node G s) = (q, ar1)"
  shows "arena_inv G ar1" "arena_extends ar ar1" "deref ar1 q = Some (new_Node G s)"
    "deref ar q = None"
proof -
  from assms(1) have wf: "arena_wf ar" by (simp add: arena_inv_def)
  from assms(2) have q: "q = fst (alloc ar (new_Node G s))"
    and a: "ar1 = snd (alloc ar (new_Node G s))" by simp_all
  show "deref ar q = None" unfolding q using wf by (rule deref_fresh)
  show "deref ar1 q = Some (new_Node G s)" unfolding q a using wf by (simp add: deref_alloc)
  show "arena_inv G ar1"
    using assms(1) wf unfolding a arena_inv_def
    by (auto simp: alloc_wf deref_alloc node_inv_new split: if_splits)
  show "arena_extends ar ar1"
    unfolding arena_extends_def a using wf \<open>deref ar q = None\<close>
    by (auto simp: deref_alloc q)
qed

lemma arena_inv_first:
  assumes "alloc [] (new_Node G s) = (rt, ar)"
  shows "arena_inv G ar"
proof -
  have "arena_inv G ([] :: 'a Node Arena)"
    by (simp add: arena_inv_def arena_wf_Nil deref_def)
  from arena_inv_alloc(1) [OF this assms] show ?thesis .
qed

section \<open>The cases of a rollout that returns\<close>

lemma random_rollout_SucE:
  assumes "random_rollout G D (Suc fuel) p (rng, ar) = Some (Inr (w, rng', ar'))"
  obtains (leaf) n where "deref ar p = Some n" "winner G (state n) \<noteq> NONE"
      "w = winner G (state n)" "rng' = rng" "ar' = store ar p (n\<lparr>tot_tries := 1\<rparr>)"
  | (step) n mv rng1 node ar1 ar2 n2 n3 where "deref ar p = Some n"
      "winner G (state n) = NONE" "random_unplayed_move G D n rng = Inr (mv, rng1)"
      "alloc ar (new_Node G (move G (state n) mv)) = (node, ar1)"
      "random_rollout G D fuel node (rng1, ar1) = Some (Inr (w, rng', ar2))"
      "deref ar2 p = Some n2" "children n2 ! mv = None"
      "Node_update (n2\<lparr>children := (children n2)[mv := Some node]\<rparr>) mv w = Inr n3"
      "ar' = store ar2 p n3"
proof -
  from assms obtain n where n: "deref ar p = Some n"
    by (auto split: option.splits)
  show thesis
  proof (cases "winner G (state n) \<noteq> NONE")
    case True
    with assms n show thesis by (intro leaf [of n]) auto
  next
    case False
    with assms n obtain mv rng1 where m: "random_unplayed_move G D n rng = Inr (mv, rng1)"
      by (auto split: sum.splits)
    obtain node ar1 where a: "alloc ar (new_Node G (move G (state n) mv)) = (node, ar1)"
      by (cases "alloc ar (new_Node G (move G (state n) mv))")
    from assms n False m a obtain ar2 where
      r: "random_rollout G D fuel node (rng1, ar1) = Some (Inr (w, rng', ar2))"
      by (auto split: option.splits sum.splits if_splits)
    from assms n False m a r obtain n2 where n2: "deref ar2 p = Some n2"
      by (auto split: option.splits)
    from assms n False m a r n2 have c: "children n2 ! mv = None"
      by (auto split: if_splits)
    from assms n False m a r n2 c obtain n3 where
      u: "Node_update (n2\<lparr>children := (children n2)[mv := Some node]\<rparr>) mv w = Inr n3"
      and "ar' = store ar2 p n3"
      by (auto split: sum.splits)
    with n False m a r n2 c show thesis by (intro step [of n mv rng1 node ar1 ar2 n2 n3]) auto
  qed
qed

lemma ucb_rollout_SucE:
  assumes "ucb_rollout G D S (Suc fuel) p (rng, ar) = Some (Inr (w, rng', ar'))"
  obtains (leaf) n where "deref ar p = Some n" "winner G (state n) \<noteq> NONE"
      "w = winner G (state n)" "rng' = rng" "ar' = ar"
  | (expand) n where "deref ar p = Some n" "winner G (state n) = NONE"
      "0 < n_unplayed_moves G n"
      "random_rollout G D fuel p (rng, ar) = Some (Inr (w, rng', ar'))"
  | (select) n mv c ar1 n1 n2 where "deref ar p = Some n" "winner G (state n) = NONE"
      "n_unplayed_moves G n = 0" "ucb_move G S ar n = Inr mv" "children n ! mv = Some c"
      "ucb_rollout G D S fuel c (rng, ar) = Some (Inr (w, rng', ar1))"
      "deref ar1 p = Some n1" "Node_update n1 mv w = Inr n2" "ar' = store ar1 p n2"
proof -
  from assms obtain n where n: "deref ar p = Some n"
    by (auto split: option.splits)
  show thesis
  proof (cases "winner G (state n) \<noteq> NONE")
    case True
    with assms n show thesis by (intro leaf [of n]) auto
  next
    case False
    note nl = this
    show thesis
    proof (cases "0 < n_unplayed_moves G n")
      case True
      with assms n nl show thesis by (intro expand [of n]) auto
    next
      case False
      with assms n nl obtain mv where m: "ucb_move G S ar n = Inr mv"
        by (auto split: sum.splits)
      from assms n nl False m obtain c where c: "children n ! mv = Some c"
        by (auto split: option.splits)
      from assms n nl False m c obtain ar1 where
        r: "ucb_rollout G D S fuel c (rng, ar) = Some (Inr (w, rng', ar1))"
        by (auto split: option.splits sum.splits)
      from assms n nl False m c r obtain n1 where n1: "deref ar1 p = Some n1"
        by (auto split: option.splits)
      from assms n nl False m c r n1 obtain n2 where
        "Node_update n1 mv w = Inr n2" "ar' = store ar1 p n2"
        by (auto split: sum.splits)
      with n nl False m c r n1 show thesis
        by (intro select [of n mv c ar1 n1 n2]) auto
    qed
  qed
qed

section \<open>Rollouts keep the invariant\<close>

lemma arena_extendsD:
  assumes "arena_extends a b" "deref a p = Some n" "deref b p = Some n'"
  shows "state n' = state n"
    and "\<forall>i. children n ! i \<noteq> None \<longrightarrow> children n' ! i = children n ! i"
proof -
  from assms(1,2) obtain m where m: "deref b p = Some m" "state m = state n"
      "\<forall>i. children n ! i \<noteq> None \<longrightarrow> children m ! i = children n ! i"
    unfolding arena_extends_def by blast
  from m(1) assms(3) have "m = n'" by simp
  with m show "state n' = state n"
    and "\<forall>i. children n ! i \<noteq> None \<longrightarrow> children n' ! i = children n ! i"
    by simp_all
qed

lemma random_rollout_inv:
  "arena_inv G ar \<Longrightarrow> random_rollout G D fuel p (rng, ar) = Some (Inr (w, rng', ar')) \<Longrightarrow>
   arena_inv G ar' \<and> arena_extends ar ar' \<and> (\<exists>s. w = winner G s)"
proof (induction fuel arbitrary: p rng ar w rng' ar')
  case 0
  then show ?case by simp
next
  case (Suc fuel)
  from Suc.prems(2) show ?case
  proof (cases rule: random_rollout_SucE)
    case (leaf n)
    from Suc.prems(1) leaf(1) have "node_inv G n" by (auto simp: arena_inv_def)
    with leaf(2) have "node_inv G (n\<lparr>tot_tries := 1\<rparr>)"
      by (intro node_inv_leaf_try) (simp_all add: is_leaf_def)
    with Suc.prems(1) have "arena_inv G ar'" unfolding leaf(5) by (intro arena_inv_store)
    moreover have "arena_extends ar ar'" unfolding leaf(5)
      using leaf(1) by (intro arena_extends_store [of _ _ n]) simp_all
    ultimately show ?thesis using leaf(3) by blast
  next
    case (step n mv rng1 node ar1 ar2 n2 n3)
    from arena_inv_alloc [OF Suc.prems(1) step(4)]
    have a1: "arena_inv G ar1" "arena_extends ar ar1" by simp_all
    from Suc.IH [OF a1(1) step(5)]
    have a2: "arena_inv G ar2" "arena_extends ar1 ar2" and ws: "\<exists>s. w = winner G s" by simp_all
    from a1(2) a2(2) have e2: "arena_extends ar ar2" by (rule arena_extends_trans)
    from arena_extendsD(1) [OF e2 step(1,6)] have st: "state n2 = state n" .
    from a2(1) step(6) have i2: "node_inv G n2" by (auto simp: arena_inv_def)
    have mv: "mv < n_moves G" using step(3) by (rule random_unplayed_move_lt)
    have nl: "\<not> is_leaf G n2" using step(2) by (simp add: is_leaf_def st)
    have "node_inv G n3"
    proof (rule node_inv_update [OF i2 nl mv _ _ _ _ step(8)])
      show "length ((children n2)[mv := Some node]) = n_moves G"
        using i2 by (simp add: node_inv_def)
      show "(children n2)[mv := Some node] ! mv \<noteq> None"
        using i2 mv by (simp add: node_inv_def)
      show "\<forall>i<n_moves G. i \<noteq> mv \<longrightarrow> (children n2)[mv := Some node] ! i = children n2 ! i"
        by simp
      show "winner_contract G \<longrightarrow> (\<exists>s. w = winner G s)" using ws by simp
    qed
    with a2(1) have "arena_inv G ar'" unfolding step(9) by (intro arena_inv_store)
    moreover have n3: "state n3 = state n2" "children n3 = (children n2)[mv := Some node]"
      using Node_update_Inr(2) [OF step(8)] by simp_all
    have "arena_extends ar2 ar'" unfolding step(9)
    proof (rule arena_extends_store [OF step(6)])
      show "state n3 = state n2" by (rule n3)
      have "children n3 ! i = children n2 ! i" if "children n2 ! i \<noteq> None" for i
      proof -
        from that step(7) have "mv \<noteq> i" by auto
        then show ?thesis by (simp add: n3)
      qed
      then show "\<forall>i. children n2 ! i \<noteq> None \<longrightarrow> children n3 ! i = children n2 ! i"
        by blast
    qed
    with e2 have "arena_extends ar ar'" by (rule arena_extends_trans)
    ultimately show ?thesis using ws by blast
  qed
qed

lemma ucb_rollout_inv:
  "arena_inv G ar \<Longrightarrow> ucb_rollout G D S fuel p (rng, ar) = Some (Inr (w, rng', ar')) \<Longrightarrow>
   arena_inv G ar' \<and> arena_extends ar ar' \<and> (\<exists>s. w = winner G s)"
proof (induction fuel arbitrary: p rng ar w rng' ar')
  case 0
  then show ?case by simp
next
  case (Suc fuel)
  from Suc.prems(2) show ?case
  proof (cases rule: ucb_rollout_SucE)
    case (leaf n)
    with Suc.prems(1) show ?thesis by (auto simp: arena_extends_refl)
  next
    case (expand n)
    from random_rollout_inv [OF Suc.prems(1) expand(4)] show ?thesis .
  next
    case (select n mv c ar1 n1 n2)
    from Suc.IH [OF Suc.prems(1) select(6)]
    have a1: "arena_inv G ar1" "arena_extends ar ar1" and ws: "\<exists>s. w = winner G s" by simp_all
    from arena_extendsD [OF a1(2) select(1,7)] have st: "state n1 = state n"
      and ch: "\<forall>i. children n ! i \<noteq> None \<longrightarrow> children n1 ! i = children n ! i"
      by simp_all
    from a1(1) select(7) have i1: "node_inv G n1" by (auto simp: arena_inv_def)
    have mv: "mv < n_moves G" using select(4) by (rule ucb_move_lt)
    have nl: "\<not> is_leaf G n1" using select(2) by (simp add: is_leaf_def st)
    have u: "Node_update (n1\<lparr>children := children n1\<rparr>) mv w = Inr n2"
      using select(8) by simp
    have "node_inv G n2"
    proof (rule node_inv_update [OF i1 nl mv _ _ _ _ u])
      show "length (children n1) = n_moves G" using i1 by (simp add: node_inv_def)
      show "children n1 ! mv \<noteq> None" using ch select(5) by simp
      show "\<forall>i<n_moves G. i \<noteq> mv \<longrightarrow> children n1 ! i = children n1 ! i" by simp
      show "winner_contract G \<longrightarrow> (\<exists>s. w = winner G s)" using ws by simp
    qed
    with a1(1) have "arena_inv G ar'" unfolding select(9) by (intro arena_inv_store)
    moreover have n2: "state n2 = state n1" "children n2 = children n1"
      using Node_update_Inr(2) [OF select(8)] by simp_all
    have "arena_extends ar1 ar'" unfolding select(9)
      by (rule arena_extends_store [OF select(7)]) (simp_all add: n2)
    with a1(2) have "arena_extends ar ar'" by (rule arena_extends_trans)
    ultimately show ?thesis using ws by blast
  qed
qed

lemma after_rollouts_inv: "after_rollouts G D S rt ar \<Longrightarrow> arena_inv G ar"
proof (induction rule: after_rollouts.induct)
  case (after_none s arena)
  then show ?case by (rule arena_inv_first)
next
  case (after_rollout arena fuel this rng w rng' arena')
  from ucb_rollout_inv [OF after_rollout.IH after_rollout.hyps(2)] show ?case by simp
qed

lemma after_rollouts_node:
  "after_rollouts G D S rt ar \<Longrightarrow> deref ar p = Some n \<Longrightarrow> node_inv G n"
  using after_rollouts_inv [of G D S rt ar] by (auto simp: arena_inv_def)

section \<open>Paths of nodes with one explored move\<close>

lemma eager_path_agree:
  "eager_path G ar p ps \<Longrightarrow> \<forall>q \<in> set ps. deref ar' q = deref ar q \<Longrightarrow> eager_path G ar' p ps"
proof (induction rule: eager_path.induct)
  case (eager_leaf p n)
  then show ?case by (auto intro: eager_path.eager_leaf)
next
  case (eager_step p n i c ps)
  from eager_step.prems have "deref ar' p = Some n" using eager_step.hyps(1) by simp
  moreover from eager_step.prems have "eager_path G ar' c ps"
    by (intro eager_step.IH) simp
  ultimately show ?case
    using eager_step.hyps(2,3,4) by (auto intro: eager_path.eager_step)
qed

lemma explored_moves_new: "explored_moves (new_Node G s) = []"
  by (simp add: explored_moves_def new_Node_def is_move_explored_def filter_empty_conv)

lemma filter_upt_single: "mv < k \<Longrightarrow> filter (\<lambda>i. i = mv) [0..<k] = [mv]"
proof (induction k)
  case 0
  then show ?case by simp
next
  case (Suc k)
  show ?case
  proof (cases "mv = k")
    case True
    then have "filter (\<lambda>i. i = mv) [0..<k] = []" by (simp add: filter_empty_conv)
    with True show ?thesis by simp
  next
    case False
    with Suc.prems have "mv < k" by simp
    with Suc.IH False show ?thesis by simp
  qed
qed

lemma explored_moves_one:
  assumes "mv < length cs" "\<forall>i < length cs. i \<noteq> mv \<longrightarrow> cs ! i = None" "cs ! mv \<noteq> None"
    "children n = cs"
  shows "explored_moves n = [mv]"
proof -
  have "filter (is_move_explored n) [0..<length cs] = filter (\<lambda>i. i = mv) [0..<length cs]"
    using assms by (intro filter_cong) (auto simp: is_move_explored_def)
  with assms(1,4) show ?thesis by (simp add: explored_moves_def filter_upt_single)
qed

section \<open>A random rollout from a fresh node\<close>

lemma random_rollout_fresh:
  "arena_wf ar \<Longrightarrow> deref ar p = Some (new_Node G s) \<Longrightarrow>
   random_rollout G D fuel p (rng, ar) = Some (Inr (w, rng', ar')) \<Longrightarrow>
   arena_wf ar' \<and> (\<forall>q. q \<noteq> p \<longrightarrow> deref ar q \<noteq> None \<longrightarrow> deref ar' q = deref ar q) \<and>
   (\<exists>n'. deref ar' p = Some n' \<and> state n' = s) \<and>
   (\<exists>ps. eager_path G ar' p (p # ps) \<and> (\<forall>q \<in> set ps. deref ar q = None))"
proof (induction fuel arbitrary: p s rng ar w rng' ar')
  case 0
  then show ?case by simp
next
  case (Suc fuel)
  from Suc.prems(3) show ?case
  proof (cases rule: random_rollout_SucE)
    case (leaf n)
    with Suc.prems(2) have n: "n = new_Node G s" by simp
    have d: "deref ar' p = Some (n\<lparr>tot_tries := 1\<rparr>)"
      unfolding leaf(5) using leaf(1) by (simp add: deref_store)
    have "is_leaf G (n\<lparr>tot_tries := 1\<rparr>)" using leaf(2) by (simp add: is_leaf_def)
    with d have "eager_path G ar' p [p]" by (rule eager_leaf)
    moreover have "arena_wf ar'" unfolding leaf(5) using Suc.prems(1) by (rule store_wf)
    moreover have "\<forall>q. q \<noteq> p \<longrightarrow> deref ar q \<noteq> None \<longrightarrow> deref ar' q = deref ar q"
      unfolding leaf(5) by (simp add: deref_store)
    moreover have "state (n\<lparr>tot_tries := 1\<rparr>) = s" by (simp add: n new_Node_def)
    ultimately show ?thesis using d by (intro conjI exI [of _ "[]"]) auto
  next
    case (step n mv rng1 node ar1 ar2 n2 n3)
    with Suc.prems(2) have n: "n = new_Node G s" by simp
    define s' where "s' = move G (state n) mv"
    have node: "node = fst (alloc ar (new_Node G s'))" and ar1: "ar1 = snd (alloc ar (new_Node G s'))"
      using step(4) by (simp_all add: s'_def)
    have wf1: "arena_wf ar1" unfolding ar1 using Suc.prems(1) by (rule alloc_wf)
    have fresh: "deref ar node = None" unfolding node using Suc.prems(1) by (rule deref_fresh)
    have d1: "deref ar1 q = (if q = node then Some (new_Node G s') else deref ar q)" for q
      unfolding ar1 node using Suc.prems(1) by (rule deref_alloc)
    have pn: "p \<noteq> node" using fresh step(1) by auto
    from Suc.IH [OF wf1 _ step(5), of s'] d1
    have wf2: "arena_wf ar2"
      and fr2: "\<forall>q. q \<noteq> node \<longrightarrow> deref ar1 q \<noteq> None \<longrightarrow> deref ar2 q = deref ar1 q"
      and path2: "\<exists>ps. eager_path G ar2 node (node # ps) \<and> (\<forall>q \<in> set ps. deref ar1 q = None)"
      by simp_all
    have "deref ar2 p = Some n" using fr2 pn d1 step(1) by simp
    with step(6) have n2: "n2 = n" by simp
    have mv: "mv < n_moves G" using step(3) by (rule random_unplayed_move_lt)
    from Node_update_Inr(2) [OF step(8)]
    have n3: "state n3 = s" "children n3 = (replicate (n_moves G) None)[mv := Some node]"
      by (simp_all add: n2 n new_Node_def)
    have d': "deref ar' q = (if q = p then Some n3 else deref ar2 q)" for q
      unfolding step(9) using step(6) by (simp add: deref_store)
    have wf': "arena_wf ar'" unfolding step(9) using wf2 by (rule store_wf)
    have fr': "\<forall>q. q \<noteq> p \<longrightarrow> deref ar q \<noteq> None \<longrightarrow> deref ar' q = deref ar q"
    proof (intro allI impI)
      fix q assume q: "q \<noteq> p" "deref ar q \<noteq> None"
      with fresh have "q \<noteq> node" by auto
      with q d1 fr2 have "deref ar2 q = deref ar q" by simp
      with q(1) show "deref ar' q = deref ar q" by (simp add: d')
    qed
    from path2 obtain ps where ps: "eager_path G ar2 node (node # ps)"
      "\<forall>q \<in> set ps. deref ar1 q = None" by blast
    have notp: "\<forall>q \<in> set (node # ps). q \<noteq> p"
      using ps(2) pn d1 [of p] step(1) by auto
    then have "\<forall>q \<in> set (node # ps). deref ar' q = deref ar2 q" by (simp add: d')
    with ps(1) have path': "eager_path G ar' node (node # ps)" by (rule eager_path_agree)
    have nl: "\<not> is_leaf G n3" using step(2) by (simp add: is_leaf_def n3 n new_Node_def)
    have ex: "explored_moves n3 = [mv]"
      by (rule explored_moves_one [of mv "(replicate (n_moves G) None)[mv := Some node]"])
        (use mv in \<open>simp_all add: n3\<close>)
    have cm: "children n3 ! mv = Some node" using mv by (simp add: n3)
    have dp: "deref ar' p = Some n3" by (simp add: d')
    from dp nl ex cm path' have "eager_path G ar' p (p # node # ps)"
      by (rule eager_step)
    moreover have "\<forall>q \<in> set (node # ps). deref ar q = None"
    proof
      fix q assume "q \<in> set (node # ps)"
      then consider "q = node" | "q \<in> set ps" by auto
      then show "deref ar q = None"
      proof cases
        case 1
        then show ?thesis using fresh by simp
      next
        case 2
        with ps(2) have "deref ar1 q = None" by simp
        then show ?thesis using d1 [of q] by (auto split: if_splits)
      qed
    qed
    ultimately have "\<exists>ps. eager_path G ar' p (p # ps) \<and> (\<forall>q \<in> set ps. deref ar q = None)"
      by blast
    moreover have "\<exists>n'. deref ar' p = Some n' \<and> state n' = s" using dp n3(1) by blast
    ultimately show ?thesis using wf' fr' by blast
  qed
qed

section \<open>The scans over the moves\<close>

lemma fold_count:
  "fold (\<lambda>i count. count + (if q i then 1 else 0)) is c = c + length (filter q is)"
  by (induction "is" arbitrary: c) simp_all

lemma n_unplayed_moves_eq: "n_unplayed_moves G n = length (unplayed_moves G n)"
  by (simp add: n_unplayed_moves_def unplayed_moves_def fold_count)

lemma scan_moves_kth:
  "c < k \<Longrightarrow> k \<le> c + length (filter q is) \<Longrightarrow>
   scan_moves q k is c = Inr (filter q is ! (k - c - 1))"
proof (induction "is" arbitrary: c)
  case Nil
  then show ?case by simp
next
  case (Cons i "is")
  show ?case
  proof (cases "q i")
    case False
    with Cons.prems have "scan_moves q k is c = Inr (filter q is ! (k - c - 1))"
      by (intro Cons.IH) simp_all
    with False Cons.prems(1) show ?thesis by (simp add: Let_def)
  next
    case True
    show ?thesis
    proof (cases "Suc c = k")
      case e: True
      with True show ?thesis by (auto simp: Let_def)
    next
      case ne: False
      with True Cons.prems have "scan_moves q k is (Suc c) = Inr (filter q is ! (k - Suc c - 1))"
        by (intro Cons.IH) simp_all
      moreover from ne Cons.prems(1) have "k - c - 1 = Suc (k - Suc c - 1)" by simp
      ultimately show ?thesis using True ne by (simp add: Let_def)
    qed
  qed
qed

lemma kth_bij:
  "bij_betw (\<lambda>k. filter q [0..<m] ! (k - 1)) {1..length (filter q [0..<m])} {i. i < m \<and> q i}"
proof -
  let ?xs = "filter q [0..<m]"
  have d: "distinct ?xs" by simp
  have s: "set ?xs = {i. i < m \<and> q i}" by auto
  have "bij_betw (\<lambda>j. ?xs ! j) {..<length ?xs} (set ?xs)"
    using d by (rule bij_betw_nth) simp_all
  moreover have "bij_betw (\<lambda>k. k - 1) {1..length ?xs} {..<length ?xs}"
    by (rule bij_betw_byWitness [where f' = Suc]) auto
  ultimately have "bij_betw ((\<lambda>j. ?xs ! j) \<circ> (\<lambda>k. k - 1)) {1..length ?xs} (set ?xs)"
    by (rule bij_betw_trans [rotated])
  then show ?thesis by (simp add: s comp_def)
qed

lemma ucb_loop_no_valid:
  "\<forall>i \<in> set is. \<not> is_valid G (state n) i \<Longrightarrow>
   ucb_loop G S ar n pl fl is um im = (case im of None \<Rightarrow> Inl AssertionFailed | Some i \<Rightarrow> Inr i)"
  by (induction "is") simp_all

lemma ucb_move_fresh:
  assumes "n_unplayed_moves G (new_Node G s) = 0"
  shows "ucb_move G S ar (new_Node G s) = Inl AssertionFailed"
proof -
  from assms have "unplayed_moves G (new_Node G s) = []"
    by (simp add: n_unplayed_moves_eq)
  then have "\<forall>i \<in> set [0..<n_moves G]. \<not> is_valid G (state (new_Node G s)) i"
    by (auto simp: unplayed_moves_def filter_empty_conv new_Node_def)
  then show ?thesis
    using assms by (simp add: ucb_move_def ucb_loop_no_valid Let_def)
qed

lemma ucb_loop_first_win:
  assumes "\<forall>j \<in> set pre. is_valid G (state n) j \<longrightarrow> has_child G ar n j \<and> \<not> mover_wins G ar n j"
    and "is_valid G (state n) i" "mover_wins G ar n i" "pl = player_turn G (state n)"
  shows "ucb_loop G S ar n pl fl (pre @ i # post) um im = Inr i"
  using assms(1)
proof (induction pre arbitrary: um im)
  case Nil
  from assms(3,4) show ?case
    using assms(2) by (auto simp: mover_wins_def split: sum.splits)
next
  case (Cons j pre)
  show ?case
  proof (cases "is_valid G (state n) j")
    case False
    with Cons show ?thesis by simp
  next
    case True
    with Cons.prems have "has_child G ar n j" "\<not> mover_wins G ar n j" by simp_all
    then have "(if pl = 0 then map_sum id (\<lambda>w. w = WIN) (child_winner G ar n j)
               else if pl = 1 then map_sum id (\<lambda>w. w = LOSS) (child_winner G ar n j)
               else Inr False) = Inr False"
      using assms(4) by (auto simp: has_child_def mover_wins_def split: sum.splits)
    with True Cons show ?thesis by (simp add: Let_def)
  qed
qed

section \<open>More fuel does not change a result\<close>







section \<open>The first rollout returns\<close>

lemma unplayed_moves_new: "unplayed_moves G (new_Node G s) = valid_moves G s"
  unfolding unplayed_moves_def valid_moves_def
  by (rule filter_cong) (simp_all add: new_Node_def)

lemma random_unplayed_move_new:
  assumes dc: "dist_contract D" and v: "\<exists>i < n_moves G. is_valid G s i"
  shows "\<exists>mv rng1. random_unplayed_move G D (new_Node G s) rng = Inr (mv, rng1) \<and>
           mv < n_moves G \<and> is_valid G s mv"
proof -
  let ?n = "new_Node G s"
  let ?q = "\<lambda>i. tries ?n ! i = 0 \<and> is_valid G (state ?n) i"
  have vm: "filter ?q [0..<n_moves G] = valid_moves G s"
    using unplayed_moves_new [of G s] by (simp add: unplayed_moves_def)
  from v have "valid_moves G s \<noteq> []"
    by (auto simp: valid_moves_def filter_empty_conv)
  then have k: "0 < n_unplayed_moves G ?n"
    by (simp add: n_unplayed_moves_eq unplayed_moves_new)
  obtain imove rng1 where d: "D 1 (n_unplayed_moves G ?n) rng = (imove, rng1)"
    by (cases "D 1 (n_unplayed_moves G ?n) rng")
  from dc k have "1 \<le> fst (D 1 (n_unplayed_moves G ?n) rng) \<and>
      fst (D 1 (n_unplayed_moves G ?n) rng) \<le> n_unplayed_moves G ?n"
    unfolding dist_contract_def by (metis Suc_leI One_nat_def)
  with d have i: "1 \<le> imove" "imove \<le> length (valid_moves G s)"
    by (simp_all add: n_unplayed_moves_eq unplayed_moves_new)
  have "scan_moves ?q imove [0..<n_moves G] 0 = Inr (filter ?q [0..<n_moves G] ! (imove - 0 - 1))"
    using i by (intro scan_moves_kth) (simp_all add: vm)
  then have sc: "scan_moves ?q imove [0..<n_moves G] 0 = Inr (valid_moves G s ! (imove - 1))"
    by (simp add: vm)
  have "valid_moves G s ! (imove - 1) \<in> set (valid_moves G s)"
    using i by (intro nth_mem) simp
  then have m: "valid_moves G s ! (imove - 1) < n_moves G"
    "is_valid G s (valid_moves G s ! (imove - 1))"
    by (simp_all add: valid_moves_def)
  have "random_unplayed_move G D ?n rng = Inr (valid_moves G s ! (imove - 1), rng1)"
    using k d sc by (simp add: random_unplayed_move_def Let_def)
  with m show ?thesis by blast
qed

lemma random_rollout_returns:
  assumes wc: "winner_contract G" and dc: "dist_contract D" and ge: "game_ends G ok rank"
  shows "ok s \<Longrightarrow> arena_wf ar \<Longrightarrow> deref ar p = Some (new_Node G s) \<Longrightarrow> rank s < fuel \<Longrightarrow>
         \<exists>w rng' ar'. random_rollout G D fuel p (rng, ar) = Some (Inr (w, rng', ar')) \<and>
           w \<noteq> NONE \<and> (\<exists>t. w = winner G t)"
proof (induction fuel arbitrary: s ar p rng)
  case 0
  then show ?case by simp
next
  case (Suc fuel)
  let ?n = "new_Node G s"
  have sn: "state ?n = s" by (simp add: new_Node_def)
  show ?case
  proof (cases "winner G s \<noteq> NONE")
    case True
    with Suc.prems(3) show ?thesis by (auto simp: sn)
  next
    case False
    then have none: "winner G s = NONE" by simp
    from ge Suc.prems(1) none have v: "\<exists>i < n_moves G. is_valid G s i"
      and dec: "\<forall>i < n_moves G. is_valid G s i \<longrightarrow> ok (move G s i) \<and> rank (move G s i) < rank s"
      unfolding game_ends_def by blast+
    from random_unplayed_move_new [OF dc v, of rng]
    obtain mv rng1 where m: "random_unplayed_move G D ?n rng = Inr (mv, rng1)"
      "mv < n_moves G" "is_valid G s mv" by blast
    let ?s' = "move G s mv"
    from dec m(2,3) have ok': "ok ?s'" and r': "rank ?s' < fuel"
      using Suc.prems(4) by auto
    obtain node ar1 where a: "alloc ar (new_Node G ?s') = (node, ar1)"
      by (cases "alloc ar (new_Node G ?s')")
    then have node: "node = fst (alloc ar (new_Node G ?s'))"
      and ar1: "ar1 = snd (alloc ar (new_Node G ?s'))" by simp_all
    have wf1: "arena_wf ar1" unfolding ar1 using Suc.prems(2) by (rule alloc_wf)
    have fresh: "deref ar node = None" unfolding node using Suc.prems(2) by (rule deref_fresh)
    have d1: "deref ar1 q = (if q = node then Some (new_Node G ?s') else deref ar q)" for q
      unfolding ar1 node using Suc.prems(2) by (rule deref_alloc)
    have dn: "deref ar1 node = Some (new_Node G ?s')" by (simp add: d1)
    from Suc.IH [OF ok' wf1 dn r', of rng1]
    obtain w rng2 ar2 where
      rr: "random_rollout G D fuel node (rng1, ar1) = Some (Inr (w, rng2, ar2))"
      and w: "w \<noteq> NONE" "\<exists>t. w = winner G t" by blast
    from random_rollout_fresh [OF wf1 dn rr]
    have fr: "\<forall>q. q \<noteq> node \<longrightarrow> deref ar1 q \<noteq> None \<longrightarrow> deref ar2 q = deref ar1 q" by simp
    have pn: "p \<noteq> node" using fresh Suc.prems(3) by auto
    then have d2: "deref ar2 p = Some ?n" using fr d1 [of p] Suc.prems(3) by simp
    have cm: "children ?n ! mv = None" using m(2) by (simp add: new_Node_def)
    from w(2) wc have "w \<in> {WIN, TIE, LOSS, NONE}" by (auto simp: winner_contract_def)
    with w(1) have "f32 w = w" by (auto simp: f32_exact)
    with w(1) obtain n3 where
      u: "Node_update (?n\<lparr>children := (children ?n)[mv := Some node]\<rparr>) mv w = Inr n3"
      by (simp add: Node_update_def Let_def)
    have "random_rollout G D (Suc fuel) p (rng, ar) = Some (Inr (w, rng2, store ar2 p n3))"
      using Suc.prems(3) none m(1) a rr d2 cm u by (simp add: sn)
    with w show ?thesis by blast
  qed
qed

lemma first_rollout_returns:
  assumes "winner_contract G" "dist_contract D" "game_ends G ok rank"
    and "ok s" "arena_wf ar" "deref ar p = Some (new_Node G s)" "rank s < fuel"
  shows "\<exists>w rng' ar'. ucb_rollout G D S (Suc fuel) p (rng, ar) = Some (Inr (w, rng', ar'))"
proof (cases "winner G s \<noteq> NONE")
  case True
  with assms(6) show ?thesis by (simp add: new_Node_def)
next
  case False
  from assms(3,4) False have "\<exists>i < n_moves G. is_valid G s i"
    unfolding game_ends_def by blast
  then have "valid_moves G s \<noteq> []"
    by (auto simp: valid_moves_def filter_empty_conv)
  then have k: "0 < n_unplayed_moves G (new_Node G s)"
    by (simp add: n_unplayed_moves_eq unplayed_moves_new)
  from random_rollout_returns [OF assms(1-7), of rng]
  obtain w rng' ar' where "random_rollout G D fuel p (rng, ar) = Some (Inr (w, rng', ar'))"
    by blast
  with False k assms(6) show ?thesis by (simp add: new_Node_def)
qed

section \<open>Tic Tac Toe ends\<close>

lemma cell_free: "i < 32 \<Longrightarrow> (push_bit i (1::uint) AND w = 0) = (\<not> bit w i)"
proof -
  assume i: "i < 32"
  have b: "bit (push_bit i (1::uint) AND w) j = (j = i \<and> bit w i)" for j
    using i by (auto simp: bit_and_iff bit_push_bit_iff bit_1_iff simp del: push_bit_of_1)
  show ?thesis
  proof
    assume "push_bit i (1::uint) AND w = 0"
    then have "\<not> bit (push_bit i (1::uint) AND w) i" by simp
    then show "\<not> bit w i" by (simp only: b) simp
  next
    assume "\<not> bit w i"
    then have "bit (push_bit i (1::uint) AND w) j = bit (0::uint) j" for j
      by (simp only: b) simp
    then show "push_bit i (1::uint) AND w = 0" by (rule bit_eqI)
  qed
qed

lemma cell_free': "i < 32 \<Longrightarrow> (2 ^ i AND (w::uint) = 0) = (\<not> bit w i)"
  using cell_free [of i w] by simp

lemma board_full:
  assumes "take_bit 9 w = (w::uint)" "\<forall>i < 9. bit w i"
  shows "w = 0x1FF"
proof -
  have "bit w j = bit (mask 9 :: uint) j" for j
  proof -
    have "bit w j = bit (take_bit 9 w) j" by (simp add: assms(1))
    also have "\<dots> = (j < 9 \<and> bit w j)" by (simp add: bit_take_bit_iff)
    also have "\<dots> = (j < 9)" using assms(2) by auto
    also have "\<dots> = bit (mask 9 :: uint) j" by (auto simp: bit_mask_iff)
    finally show ?thesis .
  qed
  then have "w = mask 9" by (simp add: bit_eq_iff)
  then show ?thesis by (simp add: mask_eq_exp_minus_1)
qed

lemma mark_cell:
  assumes "take_bit 9 w = (w::uint)" "i < 9"
  shows "take_bit 9 (w OR push_bit i 1) = w OR push_bit i 1"
proof -
  have "bit (take_bit 9 (w OR push_bit i 1)) j = bit (w OR push_bit i 1) j" for j
  proof -
    have "bit w j \<Longrightarrow> j < 9"
      using assms(1) by (metis bit_take_bit_iff)
    then show ?thesis
      using assms(2) by (auto simp: bit_take_bit_iff bit_or_iff bit_push_bit_iff bit_1_iff simp del: push_bit_of_1)
  qed
  then show ?thesis by (simp only: bit_eq_iff) simp
qed

lemma marked_bit:
  "i < 32 \<Longrightarrow> bit ((w::uint) OR push_bit i 1) j = (bit w j \<or> j = i)"
  by (auto simp: bit_or_iff bit_push_bit_iff bit_1_iff simp del: push_bit_of_1)

lemma iplayer_cases: "(p::uint) < 2 \<Longrightarrow> p = 0 \<or> p = 1"
proof -
  assume "p < 2"
  then have "unat p < 2" by (simp add: word_less_nat_alt)
  then have "unat p = 0 \<or> unat p = 1" by auto
  then have "unat p = unat (0::uint) \<or> unat p = unat (1::uint)" by simp
  then show ?thesis by (simp only: word_unat_eq_iff [symmetric])
qed

lemma next_player: "(p + 1) AND 1 < (2::uint)"
  using word_and_le1 [of "p + 1" 1] by (simp add: word_le_nat_alt word_less_nat_alt)


lemma mark_cell': "take_bit 9 w = (w::uint) \<Longrightarrow> i < 9 \<Longrightarrow> take_bit 9 (w OR 2 ^ i) = w OR 2 ^ i"
  using mark_cell [of w i] by simp

lemma marked_bit': "i < 32 \<Longrightarrow> bit ((w::uint) OR 2 ^ i) j = (bit w j \<or> j = i)"
  using marked_bit [of i w j] by simp

lemma TicTacToe_is_valid_bit:
  "i < 9 \<Longrightarrow> is_valid TicTacToe_game t i = (\<not> bit (xos t ! 0 OR xos t ! 1) i)"
  by (simp add: TicTacToe_game_def TicTacToe_is_valid_def Let_def cell_free')

lemma TicTacToe_has_move:
  assumes "TicTacToe_ok t" "winner TicTacToe_game t = NONE"
  shows "\<exists>i < n_moves TicTacToe_game. is_valid TicTacToe_game t i"
proof (rule ccontr)
  assume n: "\<not> ?thesis"
  have "\<forall>i < 9. bit (xos t ! 0 OR xos t ! 1) i"
  proof (intro allI impI)
    fix i :: nat assume i: "i < 9"
    with n have "\<not> is_valid TicTacToe_game t i" by (auto simp: TicTacToe_game_def)
    with i show "bit (xos t ! 0 OR xos t ! 1) i" by (simp only: TicTacToe_is_valid_bit) simp
  qed
  with assms(1) have "xos t ! 0 OR xos t ! 1 = 0x1FF"
    by (intro board_full) (simp_all add: TicTacToe_ok_def)
  then have "winner TicTacToe_game t \<noteq> NONE"
    by (simp add: TicTacToe_game_def TicTacToe_winner_def Let_def)
  with assms(2) show False by simp
qed

lemma TicTacToe_move_board:
  assumes "TicTacToe_ok t"
  shows "length (xos (TicTacToe_move t i)) = 2" "iplayer (TicTacToe_move t i) < 2"
    "xos (TicTacToe_move t i) ! 0 OR xos (TicTacToe_move t i) ! 1 =
       (xos t ! 0 OR xos t ! 1) OR 2 ^ i"
proof -
  from assms obtain a b where ab: "xos t = [a, b]"
    by (cases "xos t"; cases "tl (xos t)") (auto simp: TicTacToe_ok_def)
  from assms have "iplayer t = 0 \<or> iplayer t = 1"
    by (intro iplayer_cases) (simp add: TicTacToe_ok_def)
  then show "xos (TicTacToe_move t i) ! 0 OR xos (TicTacToe_move t i) ! 1 =
       (xos t ! 0 OR xos t ! 1) OR 2 ^ i"
    by (auto simp: TicTacToe_move_def ab ac_simps)
  show "length (xos (TicTacToe_move t i)) = 2"
    using assms by (simp add: TicTacToe_move_def TicTacToe_ok_def)
  show "iplayer (TicTacToe_move t i) < 2"
    using next_player [of "iplayer t"] by (simp add: TicTacToe_move_def)
qed

lemma TicTacToe_move_ok:
  assumes "TicTacToe_ok t" "i < 9"
  shows "TicTacToe_ok (TicTacToe_move t i)"
proof -
  let ?w = "xos t ! 0 OR xos t ! 1"
  note b = TicTacToe_move_board [OF assms(1), of i]
  from assms(1) have "take_bit 9 ?w = ?w" by (simp only: TicTacToe_ok_def)
  then have "take_bit 9 (?w OR 2 ^ i) = ?w OR 2 ^ i"
    using assms(2) by (rule mark_cell')
  then have "take_bit 9 (xos (TicTacToe_move t i) ! 0 OR xos (TicTacToe_move t i) ! 1) =
      xos (TicTacToe_move t i) ! 0 OR xos (TicTacToe_move t i) ! 1"
    by (simp only: b(3))
  with b(1,2) show ?thesis by (simp only: TicTacToe_ok_def)
qed

lemma TicTacToe_move_rank:
  assumes "TicTacToe_ok t" "i < 9" "is_valid TicTacToe_game t i"
  shows "TicTacToe_rank (TicTacToe_move t i) < TicTacToe_rank t"
proof -
  let ?w = "xos t ! 0 OR xos t ! 1"
  let ?P = "is_valid TicTacToe_game (TicTacToe_move t i)"
  let ?Q = "is_valid TicTacToe_game t"
  have v': "?P j = (\<not> bit ?w j \<and> j \<noteq> i)" if "j < 9" for j
    using that assms(2) TicTacToe_move_board(3) [OF assms(1), of i]
    by (simp add: TicTacToe_is_valid_bit marked_bit')
  have q: "?Q j = (\<not> bit ?w j)" if "j < 9" for j
    using that by (rule TicTacToe_is_valid_bit)
  have imp: "?P j \<Longrightarrow> ?Q j" if "j < 9" for j
    using that v' [of j] q [of j] by blast
  have eq: "filter ?P [0..<9] = filter ?P (filter ?Q [0..<9])"
    unfolding filter_filter
    by (rule filter_cong) (use imp in auto)
  have mem: "i \<in> set (filter ?Q [0..<9])" using assms(2,3) by simp
  have np: "\<not> ?P i" using assms(2) by (simp add: v')
  from mem np have "length (filter ?P (filter ?Q [0..<9])) < length (filter ?Q [0..<9])"
    by (rule length_filter_less)
  with eq have "length (filter ?P [0..<9]) < length (filter ?Q [0..<9])"
    by (simp only:)
  then show ?thesis
    by (simp add: TicTacToe_rank_def valid_moves_def TicTacToe_game_def)
qed

lemma TicTacToe_ends: "game_ends TicTacToe_game TicTacToe_ok TicTacToe_rank"
  unfolding game_ends_def
proof (intro allI impI conjI)
  fix s assume "TicTacToe_ok s" "winner TicTacToe_game s = NONE"
  then show "\<exists>i < n_moves TicTacToe_game. is_valid TicTacToe_game s i"
    by (rule TicTacToe_has_move)
next
  fix s i assume ok: "TicTacToe_ok s" and i: "i < n_moves TicTacToe_game"
    and v: "is_valid TicTacToe_game s i"
  from i have i9: "i < 9" by (simp add: TicTacToe_game_def)
  have m: "move TicTacToe_game s i = TicTacToe_move s i" by (simp add: TicTacToe_game_def)
  show "TicTacToe_ok (move TicTacToe_game s i)"
    unfolding m using ok i9 by (rule TicTacToe_move_ok)
  show "TicTacToe_rank (move TicTacToe_game s i) < TicTacToe_rank s"
    unfolding m using ok i9 v by (rule TicTacToe_move_rank)
qed

lemma TicTacToe_init_ok: "TicTacToe_ok TicTacToe_init"
  by (simp add: TicTacToe_ok_def TicTacToe_init_def)

lemma TicTacToe_rank_le: "TicTacToe_rank t \<le> 9"
proof -
  have "length (filter (is_valid TicTacToe_game t) [0..<9]) \<le> length [0..<9::nat]"
    by (rule length_filter_le)
  then show ?thesis by (simp add: TicTacToe_rank_def valid_moves_def TicTacToe_game_def)
qed

lemma replay_dist_contract: "dist_contract replay_dist"
  unfolding dist_contract_def
proof (intro allI impI)
  fix lo hi :: nat and rng :: "nat list"
  assume "lo \<le> hi"
  then show "lo \<le> fst (replay_dist lo hi rng) \<and> fst (replay_dist lo hi rng) \<le> hi"
  proof (cases rng)
    case Nil
    with \<open>lo \<le> hi\<close> show ?thesis by (simp add: replay_dist_def)
  next
    case (Cons x xs)
    have "fst (replay_dist lo hi rng) = lo + x mod Suc (hi - lo)"
      by (simp add: replay_dist_def Cons)
    moreover have "x mod Suc (hi - lo) \<le> hi - lo" by simp
    ultimately show ?thesis using \<open>lo \<le> hi\<close> by linarith
  qed
qed

section \<open>Concrete runs\<close>

text \<open>Unfolding a call whose fuel is a numeral.\<close>

lemmas random_rollout_numeral =
  random_rollout.simps(2) [of _ _ "pred_numeral k", folded numeral_eq_Suc] for k

lemmas ucb_rollout_numeral =
  ucb_rollout.simps(2) [of _ _ _ "pred_numeral k", folded numeral_eq_Suc] for k

lemmas rollouts_numeral =
  rollouts.simps(2) [of _ _ _ _ _ "pred_numeral k", folded numeral_eq_Suc] for k

lemmas play_loop_numeral =
  play_loop.simps(2) [of _ _ _ _ "pred_numeral k", folded numeral_eq_Suc] for k

lemma list_update_numeral: "(x # xs)[numeral k := y] = x # xs[pred_numeral k := y]"
  by (simp add: numeral_eq_Suc)

lemma upt_9: "[0..<9] = [0, 1, 2, 3, 4, 5, 6, 7, 8]"
  by (simp add: upt_rec)

lemma replicate_9: "replicate 9 x = [x, x, x, x, x, x, x, x, x]"
  by (simp add: numeral_eq_Suc)

lemma endgame_win_eq: "endgame_win = \<lparr>xos = [193, 26], iplayer = 0\<rparr>"
  by (simp add: endgame_win_def TicTacToe_move_def TicTacToe_init_def)

lemma endgame_tie_eq: "endgame_tie = \<lparr>xos = [35, 28], iplayer = 0\<rparr>"
  by (simp add: endgame_tie_def TicTacToe_move_def TicTacToe_init_def)

lemmas run_simps =
  random_rollout_numeral ucb_rollout_numeral rollouts_numeral play_loop_numeral
  f32_exact list_update_numeral upt_9 replicate_9 endgame_win_eq endgame_tie_eq
  alloc_def reserve_def emplace_back_def empty_vector_def NBlock_def deref_def store_def
  new_Node_def n_unplayed_moves_def random_unplayed_move_def random_move_def Node_update_def
  ucb_move_def child_winner_def is_move_explored_def child_def choose_move_def
  play_vs_random_def replay_dist_def int_scoring_def
  TicTacToe_game_def TicTacToe_init_def TicTacToe_winner_def TicTacToe_is_valid_def
  TicTacToe_move_def TicTacToe_n_valid_moves_def TicTacToe_player_turn_def
  bitcount_def is_win_def winning_states_def endgame_game_def
  root0_def arena0_def arena1_def root1_def node_2_def leaf_25_def
  arena3_def root3_def node_5_def node_52_def leaf_528_def leaf_8_def endgame_states_def
  fresh_leaf_def leaf_root_def leaf_arena_def

lemma rollout1:
  "ucb_rollout TicTacToe_game replay_dist int_scoring 5 root0 ([], arena0) =
     Some (Inr (- 1, [], arena1))"
  by (simp add: run_simps Let_def cong: old.prod.case_cong_weak let_weak_cong)

lemma rollouts3:
  "rollouts TicTacToe_game replay_dist int_scoring 5 root0 3 ([], arena0) =
     Some (Inr ([], arena3))"
  by (simp add: run_simps Let_def cong: old.prod.case_cong_weak let_weak_cong)


text \<open>The tree after one rollout, and the fresh leaf.\<close>

lemma tree0: "alloc [] (new_Node TicTacToe_game endgame_win) = (root0, arena0)"
  by (simp add: root0_def arena0_def)

lemma arena0_wf: "arena_wf arena0"
  unfolding arena0_def by (intro alloc_wf arena_wf_Nil)

lemma after1: "after_rollouts TicTacToe_game replay_dist int_scoring root0 arena1"
  by (rule after_rollout [OF after_none [OF tree0] rollout1])

lemma TicTacToe_winner_contract: "winner_contract TicTacToe_game"
  by (simp add: winner_contract_def TicTacToe_game_def TicTacToe_winner_def Let_def)

lemma root0_eq: "root0 = Ptr 0 1 0"
  by (simp add: run_simps Let_def)

lemma deref_arena1:
  "deref arena1 root0 = Some root1"
  "deref arena1 (Ptr 0 1 1) = Some node_2"
  "deref arena1 (Ptr 0 1 2) = Some leaf_25"
  by (simp_all add: root0_eq arena1_def deref_def)

lemma reachable_arena1:
  "reachable arena1 root0 (Ptr 0 1 1)" "reachable arena1 root0 (Ptr 0 1 2)"
proof -
  have "reachable arena1 root0 root0" by (rule reachable_root)
  from reachable_child [OF this deref_arena1(1), of 2 "Ptr 0 1 1"]
  show 1: "reachable arena1 root0 (Ptr 0 1 1)" by (simp add: root1_def)
  from reachable_child [OF 1 deref_arena1(2), of 5 "Ptr 0 1 2"]
  show "reachable arena1 root0 (Ptr 0 1 2)" by (simp add: node_2_def)
qed

lemma leaf_tree:
  "deref leaf_arena leaf_root = Some fresh_leaf" "is_leaf TicTacToe_game fresh_leaf"
  "winner TicTacToe_game (state fresh_leaf) = WIN"
  "fresh_leaf = new_Node TicTacToe_game (state fresh_leaf)"
  by (simp_all add: is_leaf_def run_simps Let_def)

lemma all_less_9: "(\<forall>j < (9::nat). P j) = (\<forall>j \<in> set [0..<9]. P j)"
  by auto

lemma all_less_8: "(\<forall>j < (8::nat). P j) = (\<forall>j \<in> set [0..<8]. P j)"
  by auto

lemma upt_8: "[0..<8] = [0, 1, 2, 3, 4, 5, 6, 7]"
  by (simp add: upt_rec)

text \<open>The first rollout of the driver, from the empty board.\<close>

lemma opening_tree:
  "alloc [] (new_Node TicTacToe_game TicTacToe_init) = (opening_root, opening_arena)"
  by (simp add: opening_root_def opening_arena_def)

lemma opening_root_eq: "opening_root = Ptr 0 1 0"
  by (simp add: opening_root_def run_simps Let_def)

lemma opening_rollout:
  "ucb_rollout TicTacToe_game replay_dist int_scoring 9 opening_root ([], opening_arena) =
     Some (Inr (WIN, [], opening_arena1))"
  by (simp add: run_simps opening_root_def opening_arena_def opening_arena1_def
      opening_leaf_def Let_def cong: old.prod.case_cong_weak let_weak_cong)

lemma opening_after1:
  "after_rollouts TicTacToe_game replay_dist int_scoring opening_root opening_arena1"
  by (rule after_rollout [OF after_none [OF opening_tree] opening_rollout])

lemma opening_step:
  assumes "reachable opening_arena1 opening_root (Ptr 0 1 k)" "k < 7"
  shows "reachable opening_arena1 opening_root (Ptr 0 1 (Suc k))"
proof -
  from assms(2) consider "k = 0" | "k = 1" | "k = 2" | "k = 3" | "k = 4" | "k = 5" | "k = 6"
    by linarith
  then obtain n where "deref opening_arena1 (Ptr 0 1 k) = Some n" "k < length (children n)"
    "children n ! k = Some (Ptr 0 1 (Suc k))"
    by cases (simp_all add: opening_arena1_def deref_def)
  with assms(1) show ?thesis by (rule reachable_child)
qed

lemma opening_leaf_reachable: "reachable opening_arena1 opening_root (Ptr 0 1 7)"
proof -
  have 0: "reachable opening_arena1 opening_root (Ptr 0 1 0)"
    unfolding opening_root_eq by (rule reachable_root)
  from opening_step [OF 0] have "reachable opening_arena1 opening_root (Ptr 0 1 (Suc 0))" by simp
  from opening_step [OF this] have "reachable opening_arena1 opening_root (Ptr 0 1 (Suc (Suc 0)))" by simp
  from opening_step [OF this] have "reachable opening_arena1 opening_root (Ptr 0 1 (Suc (Suc (Suc 0))))" by simp
  from opening_step [OF this] have "reachable opening_arena1 opening_root (Ptr 0 1 (Suc (Suc (Suc (Suc 0)))))" by simp
  from opening_step [OF this] have "reachable opening_arena1 opening_root (Ptr 0 1 (Suc (Suc (Suc (Suc (Suc 0))))))" by simp
  from opening_step [OF this] have "reachable opening_arena1 opening_root (Ptr 0 1 (Suc (Suc (Suc (Suc (Suc (Suc 0)))))))" by simp
  from opening_step [OF this] have "reachable opening_arena1 opening_root (Ptr 0 1 (Suc (Suc (Suc (Suc (Suc (Suc (Suc 0))))))))" by simp
  then show ?thesis by (simp add: eval_nat_numeral)
qed

lemma opening_leaf_deref: "deref opening_arena1 (Ptr 0 1 7) = Some opening_leaf"
  by (simp add: opening_arena1_def deref_def)

lemma TicTacToe_first_rollout_returns:
  assumes "dist_contract D"
  shows "\<exists>w rng' arena'.
           ucb_rollout TicTacToe_game D S 11 opening_root (rng, opening_arena) =
             Some (Inr (w, rng', arena'))"
proof -
  have wf: "arena_wf opening_arena"
    unfolding opening_arena_def by (intro alloc_wf arena_wf_Nil)
  have d: "deref opening_arena opening_root = Some (new_Node TicTacToe_game TicTacToe_init)"
    by (simp add: opening_arena_def opening_root_def deref_alloc [OF arena_wf_Nil])
  have r: "TicTacToe_rank TicTacToe_init < 10"
    using TicTacToe_rank_le [of TicTacToe_init] by simp
  from first_rollout_returns
    [OF TicTacToe_winner_contract assms TicTacToe_ends TicTacToe_init_ok wf d r, of S rng]
  show ?thesis by (simp add: eval_nat_numeral)
qed

section \<open>The claims\<close>

subsection \<open>C1\<close>

text \<open>
  Claim C1 as it is stated fails on leaves. After the first rollout of the driver from the
  empty board, the leaf that ends the rollout is reachable from the root, its \<^verbatim>\<open>tot_tries\<close> is
  1, set by \<^verbatim>\<open>random_rollout\<close>, and all its \<^verbatim>\<open>tries[i]\<close> are 0.
\<close>

theorem tot_tries_sum_counterexample:
  "after_rollouts TicTacToe_game replay_dist int_scoring opening_root opening_arena1 \<and>
   reachable opening_arena1 opening_root (Ptr 0 1 7) \<and>
   deref opening_arena1 (Ptr 0 1 7) = Some opening_leaf \<and>
   tot_tries opening_leaf = 1 \<and> sum_list (tries opening_leaf) = 0 \<and>
   tot_tries opening_leaf \<noteq> sum_list (tries opening_leaf)"
  using opening_after1 opening_leaf_reachable opening_leaf_deref
  by (simp add: opening_leaf_def)

text \<open>
  Claim C1, as amended. After any sequence of \<^verbatim>\<open>ucb_rollout\<close> calls, a reachable node that is
  not a leaf has \<^verbatim>\<open>tot_tries\<close> equal to the sum of its \<^verbatim>\<open>tries[i]\<close> as a \<^verbatim>\<open>float\<close> counter holds
  it: the sum itself up to \<open>2 ^ 24 = 16777216\<close>, where the counter stops growing. A reachable
  leaf has every \<^verbatim>\<open>tries[i]\<close> at zero and \<^verbatim>\<open>tot_tries\<close> at 0 or 1.
\<close>

theorem tot_tries_sum:
  assumes "after_rollouts G D S rt arena" "reachable arena rt p" "deref arena p = Some n"
  shows "if is_leaf G n
         then (tot_tries n = 0 \<or> tot_tries n = 1) \<and> (\<forall>i < n_moves G. tries n ! i = 0)
         else tot_tries n = min 16777216 (sum_list (tries n))"
  using after_rollouts_node [OF assms(1,3)] by (simp add: node_inv_def)

theorem tot_tries_sum_witness:
  "after_rollouts TicTacToe_game replay_dist int_scoring root0 arena1 \<and>
   reachable arena1 root0 (Ptr 0 1 1) \<and> deref arena1 (Ptr 0 1 1) = Some node_2 \<and>
   \<not> is_leaf TicTacToe_game node_2 \<and>
   tot_tries node_2 = min 16777216 (sum_list (tries node_2))"
proof -
  have nl: "\<not> is_leaf TicTacToe_game node_2"
    by (simp add: is_leaf_def node_2_def run_simps Let_def)
  from tot_tries_sum [OF after1 reachable_arena1(1) deref_arena1(2)] nl
  have "tot_tries node_2 = min 16777216 (sum_list (tries node_2))" by simp
  with after1 reachable_arena1(1) deref_arena1(2) nl show ?thesis by simp
qed

subsection \<open>C2\<close>

text \<open>
  Claim C2. \<^verbatim>\<open>random_rollout\<close> on a node whose state has a winner returns that outcome, leaves
  the random source as it is, and changes the arena in one place: the node's \<^verbatim>\<open>tot_tries\<close>
  becomes 1. Its \<^verbatim>\<open>tries\<close>, \<^verbatim>\<open>wins\<close> and \<^verbatim>\<open>children\<close> stay what they were, so on a node just
  constructed they stay zero and null.
\<close>

theorem random_rollout_leaf:
  assumes "deref arena this = Some n" "is_leaf G n"
  shows "random_rollout G D (Suc fuel) this (rng, arena) =
           Some (Inr (winner G (state n), rng, store arena this (n\<lparr>tot_tries := 1\<rparr>)))
         \<and> deref (store arena this (n\<lparr>tot_tries := 1\<rparr>)) this = Some (n\<lparr>tot_tries := 1\<rparr>)
         \<and> tot_tries (n\<lparr>tot_tries := 1\<rparr>) = 1
         \<and> tries (n\<lparr>tot_tries := 1\<rparr>) = tries n
         \<and> wins (n\<lparr>tot_tries := 1\<rparr>) = wins n
         \<and> children (n\<lparr>tot_tries := 1\<rparr>) = children n
         \<and> (n = new_Node G (state n) \<longrightarrow>
              tries (n\<lparr>tot_tries := 1\<rparr>) = replicate (n_moves G) 0 \<and>
              wins (n\<lparr>tot_tries := 1\<rparr>) = replicate (n_moves G) 0 \<and>
              children (n\<lparr>tot_tries := 1\<rparr>) = replicate (n_moves G) None)"
proof -
  have "n = new_Node G (state n) \<longrightarrow>
              tries (n\<lparr>tot_tries := 1\<rparr>) = replicate (n_moves G) 0 \<and>
              wins (n\<lparr>tot_tries := 1\<rparr>) = replicate (n_moves G) 0 \<and>
              children (n\<lparr>tot_tries := 1\<rparr>) = replicate (n_moves G) None"
  proof
    assume "n = new_Node G (state n)"
    then have "tries n = replicate (n_moves G) 0" "wins n = replicate (n_moves G) 0"
      "children n = replicate (n_moves G) None"
      by (metis new_Node_def Node.select_convs)+
    then show "tries (n\<lparr>tot_tries := 1\<rparr>) = replicate (n_moves G) 0 \<and>
              wins (n\<lparr>tot_tries := 1\<rparr>) = replicate (n_moves G) 0 \<and>
              children (n\<lparr>tot_tries := 1\<rparr>) = replicate (n_moves G) None"
      by simp
  qed
  with assms show ?thesis by (simp add: is_leaf_def deref_store)
qed

theorem random_rollout_leaf_witness:
  "deref leaf_arena leaf_root = Some fresh_leaf \<and> is_leaf TicTacToe_game fresh_leaf \<and>
   random_rollout TicTacToe_game replay_dist (Suc 0) leaf_root ([], leaf_arena) =
     Some (Inr (WIN, [], store leaf_arena leaf_root (fresh_leaf\<lparr>tot_tries := 1\<rparr>))) \<and>
   deref (store leaf_arena leaf_root (fresh_leaf\<lparr>tot_tries := 1\<rparr>)) leaf_root =
     Some (fresh_leaf\<lparr>tot_tries := 1\<rparr>) \<and>
   tries (fresh_leaf\<lparr>tot_tries := 1\<rparr>) = replicate (n_moves TicTacToe_game) 0 \<and>
   wins (fresh_leaf\<lparr>tot_tries := 1\<rparr>) = replicate (n_moves TicTacToe_game) 0 \<and>
   children (fresh_leaf\<lparr>tot_tries := 1\<rparr>) = replicate (n_moves TicTacToe_game) None"
  using random_rollout_leaf [OF leaf_tree(1,2), of replay_dist 0 "[]"] leaf_tree
  by simp

subsection \<open>C3\<close>

text \<open>
  Claim C3. After any sequence of \<^verbatim>\<open>ucb_rollout\<close> calls, for every reachable node and every
  move index \<open>i\<close>, \<^verbatim>\<open>children[i]\<close> is occupied if and only if \<^verbatim>\<open>tries[i] > 0\<close>.
\<close>

theorem children_iff_tries:
  assumes "after_rollouts G D S rt arena" "reachable arena rt p" "deref arena p = Some n"
    and "i < n_moves G"
  shows "is_move_explored n i \<longleftrightarrow> 0 < tries n ! i"
  using after_rollouts_node [OF assms(1,3)] assms(4)
  by (simp add: node_inv_def is_move_explored_def)

theorem children_iff_tries_witness:
  "after_rollouts TicTacToe_game replay_dist int_scoring root0 arena1 \<and>
   reachable arena1 root0 (Ptr 0 1 1) \<and> deref arena1 (Ptr 0 1 1) = Some node_2 \<and>
   5 < n_moves TicTacToe_game \<and>
   is_move_explored node_2 5 = (0 < tries node_2 ! 5)"
proof -
  have 5: "5 < n_moves TicTacToe_game" by (simp add: TicTacToe_game_def)
  from children_iff_tries [OF after1 reachable_arena1(1) deref_arena1(2) 5]
    after1 reachable_arena1(1) deref_arena1(2) 5
  show ?thesis by simp
qed

subsection \<open>C4\<close>

text \<open>
  Claim C4. \<^verbatim>\<open>ucb_rollout\<close> on a node whose state has a winner returns that outcome and
  nothing else happens: the arena it returns is the arena it was given, so no node was
  allocated and no field of any node has changed, and the random source is untouched.
\<close>

theorem ucb_rollout_leaf:
  assumes "deref arena this = Some n" "is_leaf G n"
  shows "ucb_rollout G D S (Suc fuel) this (rng, arena) =
           Some (Inr (winner G (state n), rng, arena))"
  using assms by (simp add: is_leaf_def)

theorem ucb_rollout_leaf_witness:
  "deref leaf_arena leaf_root = Some fresh_leaf \<and> is_leaf TicTacToe_game fresh_leaf \<and>
   ucb_rollout TicTacToe_game replay_dist int_scoring (Suc 0) leaf_root ([], leaf_arena) =
     Some (Inr (WIN, [], leaf_arena))"
  using ucb_rollout_leaf [OF leaf_tree(1,2), of replay_dist int_scoring 0 "[]"] leaf_tree
  by simp

subsection \<open>C5\<close>

text \<open>
  Claim C5. The first \<^verbatim>\<open>ucb_rollout\<close> from a node that was just constructed on a state without
  a winner leaves that node with exactly one explored move, and from the child of that move
  the \<^verbatim>\<open>children\<close> links form a path \<open>ps\<close> of nodes, all allocated by this rollout, each with
  exactly one explored move, down to a last node whose state has a winner. (That this rollout
  returns, for a game that ends and a random source that stays in range, is shown in the
  section on the first rollout above.)
\<close>

theorem first_rollout_materializes_path:
  assumes "arena_wf arena" "deref arena this = Some (new_Node G s)" "winner G s = NONE"
    and "ucb_rollout G D S fuel this (rng, arena) = Some (Inr (w, rng', arena'))"
  shows "\<exists>n' mv c ps. deref arena' this = Some n' \<and> explored_moves n' = [mv] \<and>
           children n' ! mv = Some c \<and> eager_path G arena' c ps \<and>
           (\<forall>q \<in> set ps. deref arena q = None)"
proof -
  obtain f where fuel: "fuel = Suc f" using assms(4) by (cases fuel) simp_all
  from assms(4) [unfolded fuel]
  have rr: "random_rollout G D f this (rng, arena) = Some (Inr (w, rng', arena'))"
  proof (cases rule: ucb_rollout_SucE)
    case (leaf n)
    with assms(2,3) show ?thesis by (simp add: new_Node_def)
  next
    case (expand n)
    then show ?thesis by simp
  next
    case (select n mv c ar1 n1 n2)
    with assms(2) have "ucb_move G S arena (new_Node G s) = Inl AssertionFailed"
      by (intro ucb_move_fresh) simp
    with select(1,4) assms(2) show ?thesis by simp
  qed
  from random_rollout_fresh [OF assms(1,2) rr]
  obtain n' ps where n': "deref arena' this = Some n'" "state n' = s"
    and ps: "eager_path G arena' this (this # ps)" "\<forall>q \<in> set ps. deref arena q = None"
    by blast
  from ps(1) show ?thesis
  proof (cases rule: eager_path.cases)
    case (eager_leaf n)
    with n' assms(3) show ?thesis by (simp add: is_leaf_def)
  next
    case (eager_step n i c)
    with ps(2) show ?thesis by auto
  qed
qed

theorem first_rollout_materializes_path_witness:
  "arena_wf opening_arena \<and>
   deref opening_arena opening_root = Some (new_Node TicTacToe_game TicTacToe_init) \<and>
   winner TicTacToe_game TicTacToe_init = NONE \<and>
   ucb_rollout TicTacToe_game replay_dist int_scoring 9 opening_root ([], opening_arena) =
     Some (Inr (WIN, [], opening_arena1)) \<and>
   (\<exists>n' mv c ps. deref opening_arena1 opening_root = Some n' \<and> explored_moves n' = [mv] \<and>
      children n' ! mv = Some c \<and> eager_path TicTacToe_game opening_arena1 c ps \<and>
      (\<forall>q \<in> set ps. deref opening_arena q = None))"
proof -
  have wf: "arena_wf opening_arena"
    unfolding opening_arena_def by (intro alloc_wf arena_wf_Nil)
  have d: "deref opening_arena opening_root = Some (new_Node TicTacToe_game TicTacToe_init)"
    by (simp add: opening_arena_def opening_root_def deref_alloc [OF arena_wf_Nil])
  have w: "winner TicTacToe_game TicTacToe_init = NONE"
    by (simp add: run_simps Let_def)
  from first_rollout_materializes_path [OF wf d w opening_rollout] wf d w opening_rollout
  show ?thesis by simp
qed

subsection \<open>C6\<close>

text \<open>
  Claim C6. On a node whose valid moves are all explored, \<^verbatim>\<open>ucb_move\<close> returns the first valid
  move whose child is a win for the player to move (\<^verbatim>\<open>WIN\<close> when player 0 moves, \<^verbatim>\<open>LOSS\<close> when
  player 1 moves), whatever the scores are: the result is the same for every scoring \<open>S\<close>, so
  no score of a later move (nor of an earlier one) decides it.
\<close>

theorem ucb_move_first_win:
  assumes "n_unplayed_moves G n = 0"
    and "\<forall>j < n_moves G. is_valid G (state n) j \<longrightarrow> has_child G arena n j"
    and "i < n_moves G" "is_valid G (state n) i" "mover_wins G arena n i"
    and "\<forall>j < i. is_valid G (state n) j \<longrightarrow> \<not> mover_wins G arena n j"
  shows "ucb_move G S arena n = Inr i"
proof -
  have "[0..<n_moves G] = [0..<i] @ i # [Suc i..<n_moves G]"
    using assms(3) by (metis upt_conv_Cons upt_add_eq_append le0 less_imp_add_positive)
  moreover have "ucb_loop G S arena n (player_turn G (state n))
      (if player_turn G (state n) = 0 then 1 else - 1)
      ([0..<i] @ i # [Suc i..<n_moves G]) (neg_infinity S) None = Inr i"
    using assms(2,3,6)
    by (intro ucb_loop_first_win assms(4,5)) auto
  ultimately show ?thesis using assms(1) by (simp add: ucb_move_def Let_def)
qed

theorem ucb_move_first_win_witness:
  "n_unplayed_moves TicTacToe_game root3 = 0 \<and> 8 < n_moves TicTacToe_game \<and>
   is_valid TicTacToe_game (state root3) 8 \<and> mover_wins TicTacToe_game arena3 root3 8 \<and>
   is_valid TicTacToe_game (state root3) 2 \<and> has_child TicTacToe_game arena3 root3 2 \<and>
   is_valid TicTacToe_game (state root3) 5 \<and> has_child TicTacToe_game arena3 root3 5 \<and>
   ucb_move TicTacToe_game int_scoring arena3 root3 = Inr 8"
proof -
  have 1: "n_unplayed_moves TicTacToe_game root3 = 0"
    by (simp add: run_simps Let_def)
  have 2: "\<forall>j < n_moves TicTacToe_game.
      is_valid TicTacToe_game (state root3) j \<longrightarrow> has_child TicTacToe_game arena3 root3 j"
    by (simp add: has_child_def run_simps Let_def all_less_9)
  have 3: "8 < n_moves TicTacToe_game" by (simp add: TicTacToe_game_def)
  have 4: "is_valid TicTacToe_game (state root3) 8"
    by (simp add: run_simps Let_def)
  have 5: "mover_wins TicTacToe_game arena3 root3 8"
    by (simp add: mover_wins_def run_simps Let_def)
  have 6: "\<forall>j < 8. is_valid TicTacToe_game (state root3) j \<longrightarrow>
      \<not> mover_wins TicTacToe_game arena3 root3 j"
    by (simp add: mover_wins_def run_simps Let_def all_less_8 upt_8)
  have 7: "is_valid TicTacToe_game (state root3) 2" "has_child TicTacToe_game arena3 root3 2"
    "is_valid TicTacToe_game (state root3) 5" "has_child TicTacToe_game arena3 root3 5"
    by (simp_all add: has_child_def run_simps Let_def)
  from ucb_move_first_win [OF 1 2 3 4 5 6, of int_scoring] 1 3 4 5 7
  show ?thesis by simp
qed

subsection \<open>C7\<close>

text \<open>
  Claim C7. For a game whose \<^verbatim>\<open>winner()\<close> returns one of the four \<^verbatim>\<open>WinState\<close> constants, after
  any sequence of \<^verbatim>\<open>ucb_rollout\<close> calls, every reachable node and every move index \<open>i\<close> have
  \<open>\<bar>wins[i]\<bar> \<le> tries[i]\<close>.
\<close>

theorem wins_bounded_by_tries:
  assumes "winner_contract G"
    and "after_rollouts G D S rt arena" "reachable arena rt p" "deref arena p = Some n"
    and "i < n_moves G"
  shows "\<bar>wins n ! i\<bar> \<le> tries n ! i"
  using after_rollouts_node [OF assms(2,4)] assms(1,5)
  by (simp add: node_inv_def)

theorem wins_bounded_by_tries_witness:
  "winner_contract TicTacToe_game \<and>
   after_rollouts TicTacToe_game replay_dist int_scoring root0 arena1 \<and>
   reachable arena1 root0 (Ptr 0 1 1) \<and> deref arena1 (Ptr 0 1 1) = Some node_2 \<and>
   5 < n_moves TicTacToe_game \<and>
   \<bar>wins node_2 ! 5\<bar> \<le> tries node_2 ! 5"
proof -
  have 5: "5 < n_moves TicTacToe_game" by (simp add: TicTacToe_game_def)
  from wins_bounded_by_tries [OF TicTacToe_winner_contract after1 reachable_arena1(1)
      deref_arena1(2) 5]
    TicTacToe_winner_contract after1 reachable_arena1(1) deref_arena1(2) 5
  show ?thesis by simp
qed

subsection \<open>C8\<close>

text \<open>
  Claim C8. A reference returned by \<^verbatim>\<open>alloc\<close>, after any sequence \<open>xs\<close> of earlier
  allocations, still refers to the object it was returned for after any sequence \<open>ys\<close> of later
  allocations, whether or not they start new blocks; an allocation either puts a new block in
  front of the unchanged list or appends to the front block, in its buffer, and leaves the
  other blocks as they are; after \<^verbatim>\<open>clear()\<close> the reference dangles.
\<close>

theorem alloc_reference_stable:
  "deref (allocs (snd (alloc (allocs [] xs) x)) ys) (fst (alloc (allocs [] xs) x)) = Some x
   \<and> (snd (alloc (allocs [] xs) y) =
          \<lparr>elems = [y], capacity = NBlock, buffer = 1\<rparr> # allocs [] xs
        \<or> snd (alloc (allocs [] xs) y) =
          (hd (allocs [] xs))\<lparr>elems := elems (hd (allocs [] xs)) @ [y]\<rparr> # tl (allocs [] xs))
   \<and> deref (clear (allocs (snd (alloc (allocs [] xs) x)) ys)) (fst (alloc (allocs [] xs) x)) = None"
proof -
  have wf: "arena_wf (allocs [] xs)"
    by (simp add: allocs_wf arena_wf_Nil)
  have "deref (snd (alloc (allocs [] xs) x)) (fst (alloc (allocs [] xs) x)) = Some x"
    using wf by (simp add: deref_alloc)
  then have 1: "deref (allocs (snd (alloc (allocs [] xs) x)) ys) (fst (alloc (allocs [] xs) x)) = Some x"
    using wf by (simp add: deref_allocs alloc_wf)
  have 2: "snd (alloc (allocs [] xs) y) =
          \<lparr>elems = [y], capacity = NBlock, buffer = 1\<rparr> # allocs [] xs
        \<or> snd (alloc (allocs [] xs) y) =
          (hd (allocs [] xs))\<lparr>elems := elems (hd (allocs [] xs)) @ [y]\<rparr> # tl (allocs [] xs)"
    using alloc_cases [OF wf, of y] by auto
  have 3: "deref (clear (allocs (snd (alloc (allocs [] xs) x)) ys)) (fst (alloc (allocs [] xs) x)) = None"
    by (simp add: clear_def deref_def)
  from 1 2 3 show ?thesis by blast
qed

subsection \<open>C9\<close>

text \<open>
  Claim C9. \<^verbatim>\<open>random_move\<close> draws \<open>k\<close> from \<open>[1, n_valid_moves()]\<close> and returns the \<open>k\<close>-th valid
  move in increasing order, provided the game's \<^verbatim>\<open>n_valid_moves()\<close> is the number of valid
  moves; \<^verbatim>\<open>random_unplayed_move\<close> draws \<open>k\<close> from \<open>[1, n_unplayed_moves()]\<close> and returns the
  \<open>k\<close>-th move that is valid and has no tries. In both, \<open>k\<close> and the move returned correspond
  one to one, so a uniform \<open>k\<close> gives a uniform move.
\<close>

theorem random_moves_kth:
  "(n_valid_moves G (state n) = length (valid_moves G (state n)) \<longrightarrow>
    D 1 (n_valid_moves G (state n)) rng = (k, rng') \<longrightarrow>
    1 \<le> k \<longrightarrow> k \<le> n_valid_moves G (state n) \<longrightarrow>
    random_move G D n rng = Inr (valid_moves G (state n) ! (k - 1), rng'))
   \<and> bij_betw (\<lambda>k. valid_moves G (state n) ! (k - 1)) {1..length (valid_moves G (state n))}
        {i. i < n_moves G \<and> is_valid G (state n) i}
   \<and> (0 < n_unplayed_moves G n \<longrightarrow>
      D 1 (n_unplayed_moves G n) rng = (k, rng') \<longrightarrow>
      1 \<le> k \<longrightarrow> k \<le> n_unplayed_moves G n \<longrightarrow>
      random_unplayed_move G D n rng = Inr (unplayed_moves G n ! (k - 1), rng'))
   \<and> bij_betw (\<lambda>k. unplayed_moves G n ! (k - 1)) {1..n_unplayed_moves G n}
        {i. i < n_moves G \<and> tries n ! i = 0 \<and> is_valid G (state n) i}"
proof (intro conjI impI)
  assume c: "n_valid_moves G (state n) = length (valid_moves G (state n))"
    and d: "D 1 (n_valid_moves G (state n)) rng = (k, rng')"
    and k: "1 \<le> k" "k \<le> n_valid_moves G (state n)"
  have "scan_moves (is_valid G (state n)) k [0..<n_moves G] 0 =
      Inr (filter (is_valid G (state n)) [0..<n_moves G] ! (k - 0 - 1))"
    using k c by (intro scan_moves_kth) (simp_all add: valid_moves_def)
  with d show "random_move G D n rng = Inr (valid_moves G (state n) ! (k - 1), rng')"
    by (simp add: random_move_def valid_moves_def Let_def)
next
  show "bij_betw (\<lambda>k. valid_moves G (state n) ! (k - 1)) {1..length (valid_moves G (state n))}
        {i. i < n_moves G \<and> is_valid G (state n) i}"
    unfolding valid_moves_def by (rule kth_bij)
next
  assume p: "0 < n_unplayed_moves G n"
    and d: "D 1 (n_unplayed_moves G n) rng = (k, rng')"
    and k: "1 \<le> k" "k \<le> n_unplayed_moves G n"
  let ?q = "\<lambda>i. tries n ! i = 0 \<and> is_valid G (state n) i"
  have "scan_moves ?q k [0..<n_moves G] 0 = Inr (filter ?q [0..<n_moves G] ! (k - 0 - 1))"
    using k by (intro scan_moves_kth) (simp_all add: n_unplayed_moves_eq unplayed_moves_def)
  with d p show "random_unplayed_move G D n rng = Inr (unplayed_moves G n ! (k - 1), rng')"
    by (simp add: random_unplayed_move_def unplayed_moves_def Let_def)
next
  show "bij_betw (\<lambda>k. unplayed_moves G n ! (k - 1)) {1..n_unplayed_moves G n}
        {i. i < n_moves G \<and> tries n ! i = 0 \<and> is_valid G (state n) i}"
    unfolding n_unplayed_moves_eq unfolding unplayed_moves_def by (rule kth_bij)
qed

theorem random_moves_kth_witness:
  "n_valid_moves TicTacToe_game endgame_win = length (valid_moves TicTacToe_game endgame_win) \<and>
   valid_moves TicTacToe_game endgame_win = [2, 5, 8] \<and>
   replay_dist 1 (n_valid_moves TicTacToe_game endgame_win) [1] = (2, []) \<and>
   random_move TicTacToe_game replay_dist (new_Node TicTacToe_game endgame_win) [1] =
     Inr (5, []) \<and>
   unplayed_moves TicTacToe_game (new_Node TicTacToe_game endgame_win) = [2, 5, 8] \<and>
   replay_dist 1 (n_unplayed_moves TicTacToe_game (new_Node TicTacToe_game endgame_win)) [1] =
     (2, []) \<and>
   random_unplayed_move TicTacToe_game replay_dist (new_Node TicTacToe_game endgame_win) [1] =
     Inr (5, [])"
proof -
  let ?n = "new_Node TicTacToe_game endgame_win"
  have s: "state ?n = endgame_win" by (simp add: new_Node_def)
  have v: "valid_moves TicTacToe_game endgame_win = [2, 5, 8]"
    by (simp add: valid_moves_def run_simps Let_def)
  have c: "n_valid_moves TicTacToe_game endgame_win = 3"
    by (simp add: run_simps Let_def)
  have u: "unplayed_moves TicTacToe_game ?n = [2, 5, 8]"
    by (simp add: unplayed_moves_def run_simps Let_def)
  have cu: "n_unplayed_moves TicTacToe_game ?n = 3"
    by (simp add: n_unplayed_moves_eq u)
  have d: "replay_dist 1 3 [1] = (2, [])" by (simp add: replay_dist_def)
  have p1: "n_valid_moves TicTacToe_game (state ?n) = length (valid_moves TicTacToe_game (state ?n))"
    by (simp add: s v c)
  have p2: "replay_dist 1 (n_valid_moves TicTacToe_game (state ?n)) [1] = (2, [])"
    by (simp only: s c d)
  have p3: "1 \<le> (2::nat)" by simp
  have p4: "2 \<le> n_valid_moves TicTacToe_game (state ?n)" by (simp add: s c)
  have q1: "0 < n_unplayed_moves TicTacToe_game ?n" by (simp add: cu)
  have q2: "replay_dist 1 (n_unplayed_moves TicTacToe_game ?n) [1] = (2, [])"
    by (simp only: cu d)
  have q4: "2 \<le> n_unplayed_moves TicTacToe_game ?n" by (simp add: cu)
  note T = random_moves_kth [of TicTacToe_game ?n replay_dist "[1]" 2 "[]"]
  from T p1 p2 p3 p4
  have "random_move TicTacToe_game replay_dist ?n [1] =
      Inr (valid_moves TicTacToe_game (state ?n) ! (2 - 1), [])"
    by blast
  then have rm: "random_move TicTacToe_game replay_dist ?n [1] = Inr (5, [])"
    by (simp add: s v)
  from T q1 q2 p3 q4
  have "random_unplayed_move TicTacToe_game replay_dist ?n [1] =
      Inr (unplayed_moves TicTacToe_game ?n ! (2 - 1), [])"
    by blast
  then have ru: "random_unplayed_move TicTacToe_game replay_dist ?n [1] = Inr (5, [])"
    by (simp add: u)
  from v c u cu d rm ru show ?thesis by simp
qed

subsection \<open>C10\<close>



end
